theory Spec2Isabelle
  imports Complex_Main
begin

section \<open>The training driver of maskrcnn_benchmark/engine/trainer.py\<close>

text \<open>
  The file holds three functions: \<^verbatim>\<open>reduce_loss_dict\<close>, \<^verbatim>\<open>do_train\<close> and \<^verbatim>\<open>val\<close>.
  The language is Python 3. Loss values are tensors of floating point numbers in the
  source; here they are real numbers, so every statement about sums and averages is
  about exact arithmetic. Wall-clock time (the meters' timing, the ETA string) is left
  out. The model, the optimizer, the scheduler, the checkpointer, the meters and the
  plotting library are collaborators: a call to one of them is an event of the run's
  trace, and \<^verbatim>\<open>val\<close>, which only calls collaborators, is one event.
\<close>

subsection \<open>Exceptions\<close>

text \<open>
  Every exception the two functions can raise by themselves, as a value.
  \<^verbatim>\<open>StackError\<close> is the RuntimeError of \<^verbatim>\<open>torch.stack\<close> on an empty list,
  \<^verbatim>\<open>CommunicationError\<close> a collective that cannot complete, \<^verbatim>\<open>TypeError\<close> a keyword
  argument given twice (or a value of the wrong kind), \<^verbatim>\<open>AttributeError\<close> a missing
  attribute such as \<^verbatim>\<open>append\<close> on a float or \<^verbatim>\<open>backward\<close> on the integer 0.
  \<^verbatim>\<open>OutOfModel\<close> marks a run that has left what this theory describes (a dynamically
  built statement whose meaning depends on objects the source does not determine).
\<close>

datatype error =
    FileNotFoundError string
  | EOFError
  | UnpicklingError string
  | StackError
  | CommunicationError
  | TypeError string
  | AttributeError string
  | KeyError string
  | NameError string
  | UnboundLocalError string
  | ZeroDivisionError
  | OutOfModel string

subsection \<open>Ordered dictionaries\<close>

text \<open>
  A Python dict is a list of key-value pairs in insertion order, with distinct keys.
  \<^verbatim>\<open>d[k] = v\<close> overwrites in place when the key is there and appends otherwise; a dict
  comprehension performs these stores from left to right on an empty dict.
\<close>

fun dict_set :: "('k \<times> 'v) list \<Rightarrow> 'k \<Rightarrow> 'v \<Rightarrow> ('k \<times> 'v) list" where
  "dict_set [] k v = [(k, v)]"
| "dict_set ((k', v') # d) k v =
     (if k' = k then (k, v) # d else (k', v') # dict_set d k v)"

definition dict_of_pairs :: "('k \<times> 'v) list \<Rightarrow> ('k \<times> 'v) list" where
  "dict_of_pairs kvs = foldl (\<lambda>d (k, v). dict_set d k v) [] kvs"

text \<open>\<^verbatim>\<open>sum(x for x in xs)\<close>: starts from the integer 0 and adds from the left.\<close>

definition py_sum :: "real list \<Rightarrow> real" where
  "py_sum xs = foldl (+) 0 xs"

subsection \<open>The process group and the collective\<close>

text \<open>
  \<^verbatim>\<open>get_world_size()\<close> and \<^verbatim>\<open>dist.get_rank()\<close> are answered by the process group this
  worker belongs to. The interpreter part of the environment is used by the dynamically
  built statements of \<^verbatim>\<open>do_train\<close> only: the reserved words of the language, and the
  names the runtime binds by itself (builtins, module attributes such as \<^verbatim>\<open>__name__\<close>).
\<close>

record comm =
  get_world_size :: nat
  get_rank :: nat

record env = comm +
  py_keywords :: "string list"
  runtime_names :: "string list"

text \<open>
  One call of \<^verbatim>\<open>dist.reduce(t, dst=0)\<close> as this worker sees it: \<open>peers\<close> are the
  tensors the other ranks contribute, and \<open>leftover i\<close> is element \<open>i\<close> of this
  worker's buffer when the call returns on a rank other than the destination (the
  library promises the sum on the destination only; the source's comment says
  "only main process gets accumulated").
\<close>

record reduce_io =
  peers :: "real list list"
  leftover :: "nat \<Rightarrow> real"

definition reduce_sum :: "real list \<Rightarrow> real list list \<Rightarrow> real list" where
  "reduce_sum xs ps = foldl (\<lambda>acc p. map2 (+) acc p) xs ps"

text \<open>
  The collective completes when every rank of the group takes part with a tensor of the
  same shape. On rank 0 the buffer then holds the elementwise sum.
\<close>

definition dist_reduce :: "('a comm_scheme) \<Rightarrow> reduce_io \<Rightarrow> real list \<Rightarrow> error + real list" where
  "dist_reduce c io xs =
     (if Suc (length (peers io)) \<noteq> get_world_size c
         \<or> list_ex (\<lambda>p. length p \<noteq> length xs) (peers io)
      then Inl CommunicationError
      else Inr (if get_rank c = 0 then reduce_sum xs (peers io)
                else map (leftover io) [0..<length xs]))"

text \<open>
  The calls a run makes to its collaborators: \<^verbatim>\<open>dist.reduce\<close> on the stacked losses
  (line 37), \<^verbatim>\<open>scheduler.step\<close> (81), \<^verbatim>\<open>meters.update\<close> with the reduced total and
  mapping (94), \<^verbatim>\<open>losses.backward\<close> (97), \<^verbatim>\<open>optimizer.step\<close> (98), \<^verbatim>\<open>pickle.dump\<close> of a key's
  list (109), \<^verbatim>\<open>logger.info\<close> of the progress line (113), \<^verbatim>\<open>plt.plot\<close> of a key's list
  (133), \<^verbatim>\<open>checkpointer.save\<close> with its tag and the iteration held by the arguments
  (142, 147), \<^verbatim>\<open>val\<close> (143) and the final \<^verbatim>\<open>logger.info\<close> (150). Those made inside the loop
  carry the index of the pass.
\<close>

datatype event =
    Reduce "real list"
  | SchedulerStep int
  | MetersUpdate int real "(string \<times> real) list"
  | Backward int real
  | OptimizerStep int
  | Dump string "real list"
  | Log int
  | Plot string
  | Save int int
  | Val int
  | Report

subsection \<open>Tensors and dicts as objects\<close>

text \<open>
  Objects live in a heap and are named by their address. A scalar tensor is a view into
  a storage: the storage's address and an offset. \<^verbatim>\<open>torch.stack\<close> allocates a new
  storage; \<^verbatim>\<open>dist.reduce\<close> and \<^verbatim>\<open>/=\<close> write into the storage they are given; iterating
  a one-dimensional tensor yields views into it.
\<close>

type_synonym addr = nat

datatype tensor = Tensor addr nat

datatype obj = Storage "real list" | Dict "(string \<times> tensor) list"

type_synonym heap = "obj list"

definition heap_get :: "heap \<Rightarrow> addr \<Rightarrow> obj option" where
  "heap_get h a = (if a < length h then Some (h ! a) else None)"

definition alloc :: "heap \<Rightarrow> obj \<Rightarrow> addr \<times> heap" where
  "alloc h x = (length h, h @ [x])"

definition item :: "heap \<Rightarrow> tensor \<Rightarrow> real option" where
  "item h t =
     (case t of Tensor a i \<Rightarrow>
        (case heap_get h a of
           Some (Storage xs) \<Rightarrow> if i < length xs then Some (xs ! i) else None
         | _ \<Rightarrow> None))"

definition dict_items :: "heap \<Rightarrow> addr \<Rightarrow> (string \<times> tensor) list option" where
  "dict_items h a = (case heap_get h a of Some (Dict kvs) \<Rightarrow> Some kvs | _ \<Rightarrow> None)"

text \<open>What a reader of the mapping at address \<open>a\<close> sees: its keys with their values.\<close>

definition loss_values :: "heap \<Rightarrow> addr \<Rightarrow> (string \<times> real) list option" where
  "loss_values h a =
     (case dict_items h a of
        None \<Rightarrow> None
      | Some kvs \<Rightarrow>
          (case those (map (\<lambda>kv. item h (snd kv)) kvs) of
             None \<Rightarrow> None
           | Some xs \<Rightarrow> Some (zip (map fst kvs) xs)))"

text \<open>
  \<^verbatim>\<open>reduce_loss_dict\<close> (lines 21-43), on the heap. It returns the heap after the call,
  the cross-process calls it made, and the address of the mapping it returns (or the
  exception). With fewer than two workers, the result is the argument itself.
\<close>

definition reduce_loss_dict ::
  "('a comm_scheme) \<Rightarrow> reduce_io \<Rightarrow> heap \<Rightarrow> addr \<Rightarrow> heap \<times> event list \<times> (error + addr)" where
  "reduce_loss_dict c io h loss_dict =
     (let world_size = get_world_size c in
      if world_size < 2 then (h, [], Inr loss_dict)
      else
        (case dict_items h loss_dict of
           None \<Rightarrow> (h, [], Inl (AttributeError ''items''))
         | Some kvs \<Rightarrow>
             (let loss_names = map fst kvs; all_losses = map snd kvs in
              if all_losses = [] then (h, [], Inl StackError)
              else
                (case those (map (item h) all_losses) of
                   None \<Rightarrow> (h, [], Inl (TypeError ''stack''))
                 | Some xs \<Rightarrow>
                     (let (t, h1) = alloc h (Storage xs) in
                      case dist_reduce c io xs of
                        Inl e \<Rightarrow> (h1, [Reduce xs], Inl e)
                      | Inr ys \<Rightarrow>
                          (let h2 = h1[t := Storage ys];
                               h3 = (if get_rank c = 0
                                     then h2[t := Storage (map (\<lambda>y. y / real world_size) ys)]
                                     else h2);
                               views = map (Tensor t) [0..<length ys];
                               (r, h4) = alloc h3 (Dict (dict_of_pairs (zip loss_names views)))
                           in (h4, [Reduce xs], Inr r)))))))"

text \<open>
  The same function on values: what \<^verbatim>\<open>do_train\<close> reads from the mapping it gets back
  (\<^verbatim>\<open>.values()\<close>, \<^verbatim>\<open>.keys()\<close>, \<^verbatim>\<open>[key].item()\<close>). Lemmas \<open>reduce_loss_dict_values\<close> and
  \<open>reduce_loss_dict_on_model_heap\<close> below show that it is the heap function seen
  through \<open>loss_values\<close>.
\<close>

definition reduced_values ::
  "('a comm_scheme) \<Rightarrow> reduce_io \<Rightarrow> (string \<times> real) list
     \<Rightarrow> event list \<times> (error + (string \<times> real) list)" where
  "reduced_values c io d =
     (let world_size = get_world_size c in
      if world_size < 2 then ([], Inr d)
      else if d = [] then ([], Inl StackError)
      else
        (case dist_reduce c io (map snd d) of
           Inl e \<Rightarrow> ([Reduce (map snd d)], Inl e)
         | Inr ys \<Rightarrow>
             ([Reduce (map snd d)],
              Inr (dict_of_pairs (zip (map fst d)
                     (if get_rank c = 0 then map (\<lambda>y. y / real world_size) ys else ys))))))"

text \<open>The heap a model call leaves behind: one storage per loss, then the mapping.\<close>

definition heap_of :: "(string \<times> real) list \<Rightarrow> heap" where
  "heap_of d =
     map (\<lambda>kv. Storage [snd kv]) d
       @ [Dict (zip (map fst d) (map (\<lambda>j. Tensor j 0) [0..<length d]))]"

subsection \<open>Loss histories on disk\<close>

text \<open>
  A file under \<^verbatim>\<open>./outputs\<close>, by what \<^verbatim>\<open>pickle.load(open(path, 'rb'))\<close> does on it:
  \<open>Missing\<close> makes \<^verbatim>\<open>open\<close> raise FileNotFoundError, on \<open>RanOut\<close> the unpickler raises
  EOFError (an empty file), on \<open>Garbled\<close> it raises UnpicklingError, and \<open>Pickled xs\<close>
  is what \<^verbatim>\<open>pickle.dump(xs, ...)\<close> wrote.
\<close>

datatype disk_file = Missing | RanOut | Garbled | Pickled "real list"

definition pickle_load :: "(string \<Rightarrow> disk_file) \<Rightarrow> string \<Rightarrow> error + real list" where
  "pickle_load fs path =
     (case fs path of
        Missing \<Rightarrow> Inl (FileNotFoundError path)
      | RanOut \<Rightarrow> Inl EOFError
      | Garbled \<Rightarrow> Inl (UnpicklingError path)
      | Pickled xs \<Rightarrow> Inr xs)"

definition history_vars :: "string list" where
  "history_vars =
     [''loss_classifier'', ''loss_box_reg'', ''loss_objectness'', ''loss_rpn_box_reg'']"

definition history_path :: "string \<Rightarrow> string" where
  "history_path key = ''./outputs/'' @ key @ ''.p''"

text \<open>The four loads of lines 67-70, in order; the first exception ends them.\<close>

fun load_all :: "(string \<Rightarrow> disk_file) \<Rightarrow> string list \<Rightarrow> error + (string \<times> real list) list" where
  "load_all fs [] = Inr []"
| "load_all fs (k # ks) =
     (case pickle_load fs (history_path k) of
        Inl e \<Rightarrow> Inl e
      | Inr xs \<Rightarrow> (case load_all fs ks of Inl e \<Rightarrow> Inl e | Inr r \<Rightarrow> Inr ((k, xs) # r)))"

text \<open>
  Lines 66-75: \<^verbatim>\<open>except EOFError\<close> binds all four variables to empty lists; any other
  exception leaves the \<^verbatim>\<open>try\<close> statement. The result gives each history variable its
  list.
\<close>

definition load_histories :: "(string \<Rightarrow> disk_file) \<Rightarrow> error + (string \<Rightarrow> real list)" where
  "load_histories fs =
     (case load_all fs history_vars of
        Inl EOFError \<Rightarrow> Inr (\<lambda>k. [])
      | Inl e \<Rightarrow> Inl e
      | Inr r \<Rightarrow> Inr (\<lambda>k. case map_of r k of Some xs \<Rightarrow> xs | None \<Rightarrow> []))"

subsection \<open>The state of a run\<close>

record state =
  arguments :: int
  iteration :: "int option"
  hists :: "string \<Rightarrow> real list"
  fig_bound :: bool
  files :: "string \<Rightarrow> disk_file"
  trace :: "event list"

text \<open>
  \<open>arguments\<close> is \<^verbatim>\<open>arguments["iteration"]\<close>; \<open>iteration\<close> is the loop variable, unbound
  until the first pass; \<open>hists\<close> are the four history lists; \<open>fig_bound\<close> says whether
  the local \<^verbatim>\<open>fig\<close> has been assigned; \<open>trace\<close> lists the calls made to the
  collaborators, oldest first.
\<close>

definition emit :: "event list \<Rightarrow> state \<Rightarrow> state" where
  "emit evs st = st\<lparr>trace := trace st @ evs\<rparr>"

subsection \<open>Names seen by the dynamically built statements\<close>

text \<open>
  Lines 108, 109 and 133 build a statement from the key and run it with \<^verbatim>\<open>exec\<close>, which
  resolves \<^verbatim>\<open>{key}\<close> in the locals of \<^verbatim>\<open>do_train\<close>, then in the module, then in the
  builtins. The locals and module names below are those the source binds before line
  108; \<^verbatim>\<open>fig\<close> is bound from the first logging pass on. Of the other locals only those
  assigned from \<^verbatim>\<open>time.time()\<close> have a type the source fixes (float).
\<close>

definition frame_floats :: "string list" where
  "frame_floats = [''start_training_time'', ''end'', ''data_time'', ''batch_time'']"

definition frame_others :: "string list" where
  "frame_others =
     [''cfg'', ''model'', ''data_loader'', ''optimizer'', ''scheduler'', ''checkpointer'',
      ''device'', ''checkpoint_period'', ''arguments'', ''distributed'', ''logger'',
      ''meters'', ''max_iter'', ''start_iter'', ''iteration'', ''images'', ''targets'', ''_'',
      ''loss_dict'', ''losses'', ''loss_dict_reduced'', ''losses_reduced'', ''eta_seconds'',
      ''eta_string'', ''key'']"

definition module_names :: "string list" where
  "module_names =
     [''datetime'', ''logging'', ''pickle'', ''time'', ''os'', ''matplotlib'', ''plt'', ''torch'',
      ''dist'', ''get_world_size'', ''MetricLogger'', ''mkdir'', ''make_data_loader'',
      ''inference'', ''synchronize'', ''get_rank'', ''reduce_loss_dict'', ''do_train'', ''val'']"

definition ident_start :: "char list" where
  "ident_start = ''abcdefghijklmnopqrstuvwxyzABCDEFGHIJKLMNOPQRSTUVWXYZ_''"

definition ident_digit :: "char list" where
  "ident_digit = ''0123456789''"

definition py_identifier :: "('a env_scheme) \<Rightarrow> string \<Rightarrow> bool" where
  "py_identifier E k =
     (case k of
        [] \<Rightarrow> False
      | c # cs \<Rightarrow>
          c \<in> set ident_start
          \<and> list_all (\<lambda>x. x \<in> set ident_start \<or> x \<in> set ident_digit) cs
          \<and> k \<notin> set (py_keywords E))"

datatype binding = HistoryList | FloatObj | OtherObj

definition resolve :: "('a env_scheme) \<Rightarrow> bool \<Rightarrow> string \<Rightarrow> error + binding" where
  "resolve E fig key =
     (if key \<in> set history_vars then Inr HistoryList
      else if \<not> py_identifier E key then Inl (OutOfModel key)
      else if key \<in> set frame_floats then Inr FloatObj
      else if key \<in> set frame_others \<or> (fig \<and> key = ''fig'')
              \<or> key \<in> set module_names \<or> key \<in> set (runtime_names E)
           then Inr OtherObj
      else Inl (NameError key))"

text \<open>
  Lines 108-109 for one key: append the scalar to the list the key names and rewrite
  that key's file with the whole list.
\<close>

definition persist_key ::
  "('a env_scheme) \<Rightarrow> (string \<times> real) list \<Rightarrow> state \<Rightarrow> string \<Rightarrow> state \<times> error option" where
  "persist_key E loss_dict_reduced st key =
     (case resolve E (fig_bound st) key of
        Inl e \<Rightarrow> (st, Some e)
      | Inr FloatObj \<Rightarrow> (st, Some (AttributeError key))
      | Inr OtherObj \<Rightarrow> (st, Some (OutOfModel key))
      | Inr HistoryList \<Rightarrow>
          (case map_of loss_dict_reduced key of
             None \<Rightarrow> (st, Some (KeyError key))
           | Some v \<Rightarrow>
               (let xs = hists st key @ [v]
                in (st\<lparr>hists := (hists st)(key := xs),
                       files := (files st)(history_path key := Pickled xs),
                       trace := trace st @ [Dump key xs]\<rparr>, None))))"

fun persist ::
  "('a env_scheme) \<Rightarrow> (string \<times> real) list \<Rightarrow> string list \<Rightarrow> state \<Rightarrow> state \<times> error option" where
  "persist E d [] st = (st, None)"
| "persist E d (key # keys) st =
     (case persist_key E d st key of
        (st', Some e) \<Rightarrow> (st', Some e)
      | (st', None) \<Rightarrow> persist E d keys st')"

text \<open>Lines 131-139 for one key: a figure is made, then the key's list is plotted.\<close>

definition plot_key :: "('a env_scheme) \<Rightarrow> state \<Rightarrow> string \<Rightarrow> state \<times> error option" where
  "plot_key E st key =
     (let st1 = st\<lparr>fig_bound := True\<rparr> in
      case resolve E True key of
        Inl e \<Rightarrow> (st1, Some e)
      | Inr HistoryList \<Rightarrow> (emit [Plot key] st1, None)
      | Inr _ \<Rightarrow> (st1, Some (OutOfModel key)))"

fun plot_keys :: "('a env_scheme) \<Rightarrow> string list \<Rightarrow> state \<Rightarrow> state \<times> error option" where
  "plot_keys E [] st = (st, None)"
| "plot_keys E (key # keys) st =
     (case plot_key E st key of
        (st', Some e) \<Rightarrow> (st', Some e)
      | (st', None) \<Rightarrow> plot_keys E keys st')"

subsection \<open>do_train\<close>

text \<open>
  The collaborators are inputs. A batch stands for one pass of the loop: the Loss
  Mapping the model returns on it (a dict: its keys are distinct), and what the
  collective of that pass sees. The data loader has its \<^verbatim>\<open>len()\<close> and the batches it
  yields; the source relates the two nowhere.
\<close>

record batch =
  model_out :: "(string \<times> real) list"
  reduce_env :: reduce_io

record data_loader =
  dl_len :: nat
  dl_batches :: "batch list"

text \<open>Lines 78-143, one pass of the loop at index \<open>i\<close>.\<close>

definition loop_body ::
  "('a env_scheme) \<Rightarrow> int \<Rightarrow> int \<Rightarrow> int \<Rightarrow> batch \<Rightarrow> state \<Rightarrow> state \<times> error option" where
  "loop_body E max_iter checkpoint_period i b st0 =
     (let st1 = emit [SchedulerStep i] (st0\<lparr>arguments := i, iteration := Some i\<rparr>);
          loss_dict = model_out b;
          losses = py_sum (map snd loss_dict)
      in case reduced_values E (reduce_env b) loss_dict of
           (evs, Inl e) \<Rightarrow> (emit evs st1, Some e)
         | (evs, Inr loss_dict_reduced) \<Rightarrow>
             (let st2 = emit evs st1;
                  losses_reduced = py_sum (map snd loss_dict_reduced)
              in if ''loss'' \<in> set (map fst loss_dict_reduced)
                 then (st2, Some (TypeError ''loss''))
                 else
                   (let st3 = emit [MetersUpdate i losses_reduced loss_dict_reduced] st2
                    in if loss_dict = [] then (st3, Some (AttributeError ''backward''))
                       else
                         (case persist E loss_dict_reduced (map fst loss_dict_reduced)
                                 (emit [Backward i losses, OptimizerStep i] st3) of
                            (st4, Some e) \<Rightarrow> (st4, Some e)
                          | (st4, None) \<Rightarrow>
                              (case (if i mod 20 = 0 \<or> i = max_iter - 1
                                     then plot_keys E (map fst loss_dict_reduced)
                                            (emit [Log i] st4)
                                     else (st4, None)) of
                                 (st5, Some e) \<Rightarrow> (st5, Some e)
                               | (st5, None) \<Rightarrow>
                                   if checkpoint_period = 0
                                   then (st5, Some ZeroDivisionError)
                                   else if i mod checkpoint_period = 0 \<and> i > 0
                                   then (emit [Save i (arguments st5), Val i] st5, None)
                                   else (st5, None))))))"

text \<open>Line 77: \<^verbatim>\<open>enumerate(data_loader, start_iter)\<close> numbers the batches from \<open>i\<close> on.\<close>

fun train_loop ::
  "('a env_scheme) \<Rightarrow> int \<Rightarrow> int \<Rightarrow> int \<Rightarrow> batch list \<Rightarrow> state \<Rightarrow> state \<times> error option" where
  "train_loop E max_iter checkpoint_period i [] st = (st, None)"
| "train_loop E max_iter checkpoint_period i (b # bs) st =
     (case loop_body E max_iter checkpoint_period i b st of
        (st', Some e) \<Rightarrow> (st', Some e)
      | (st', None) \<Rightarrow> train_loop E max_iter checkpoint_period (i + 1) bs st')"

definition init_state :: "int \<Rightarrow> (string \<Rightarrow> real list) \<Rightarrow> (string \<Rightarrow> disk_file) \<Rightarrow> state" where
  "init_state start_iter hs fs =
     \<lparr>arguments = start_iter, iteration = None, hists = hs, fig_bound = False,
      files = fs, trace = []\<rparr>"

text \<open>
  Lines 77-154: the loop, the final checkpoint and the timing report, once the four
  history variables are bound to \<open>hs\<close>.
\<close>

definition train_from ::
  "('a env_scheme) \<Rightarrow> data_loader \<Rightarrow> int \<Rightarrow> int \<Rightarrow> (string \<Rightarrow> real list)
     \<Rightarrow> (string \<Rightarrow> disk_file) \<Rightarrow> state \<times> error option" where
  "train_from E data_loader checkpoint_period start_iter hs fs =
     (let max_iter = int (dl_len data_loader)
      in case train_loop E max_iter checkpoint_period start_iter
                (dl_batches data_loader) (init_state start_iter hs fs) of
           (st, Some e) \<Rightarrow> (st, Some e)
         | (st, None) \<Rightarrow>
             (case iteration st of
                None \<Rightarrow> (st, Some (UnboundLocalError ''iteration''))
              | Some i \<Rightarrow>
                  (let st' = emit [Save i (arguments st)] st
                   in if max_iter = 0 then (st', Some ZeroDivisionError)
                      else (emit [Report] st', None))))"

text \<open>
  Lines 46-154. The arguments are the environment, the data loader, the checkpoint
  period, \<^verbatim>\<open>arguments["iteration"]\<close> and the files on disk; the result is the final
  state and the exception that ended the run, if one did.
\<close>

definition do_train ::
  "('a env_scheme) \<Rightarrow> data_loader \<Rightarrow> int \<Rightarrow> int \<Rightarrow> (string \<Rightarrow> disk_file) \<Rightarrow> state \<times> error option" where
  "do_train E data_loader checkpoint_period args fs =
     (let start_iter = args
      in case load_histories fs of
           Inl e \<Rightarrow> (init_state start_iter (\<lambda>k. []) fs, Some e)
         | Inr hs \<Rightarrow> train_from E data_loader checkpoint_period start_iter hs fs)"

text \<open>Readers of a trace.\<close>

definition saves :: "event list \<Rightarrow> (int \<times> int) list" where
  "saves tr = concat (map (\<lambda>ev. case ev of Save i a \<Rightarrow> [(i, a)] | _ \<Rightarrow> []) tr)"

definition vals :: "event list \<Rightarrow> int list" where
  "vals tr = concat (map (\<lambda>ev. case ev of Val i \<Rightarrow> [i] | _ \<Rightarrow> []) tr)"

definition steps :: "event list \<Rightarrow> int list" where
  "steps tr = concat (map (\<lambda>ev. case ev of SchedulerStep i \<Rightarrow> [i] | _ \<Rightarrow> []) tr)"

definition backwards :: "event list \<Rightarrow> real list" where
  "backwards tr = concat (map (\<lambda>ev. case ev of Backward i v \<Rightarrow> [v] | _ \<Rightarrow> []) tr)"

definition dumps :: "string \<Rightarrow> event list \<Rightarrow> real list list" where
  "dumps key tr =
     concat (map (\<lambda>ev. case ev of Dump k xs \<Rightarrow> if k = key then [xs] else [] | _ \<Rightarrow> []) tr)"

definition logs :: "event list \<Rightarrow> int list" where
  "logs tr = concat (map (\<lambda>ev. case ev of Log i \<Rightarrow> [i] | _ \<Rightarrow> []) tr)"

subsection \<open>Notions used by the statements\<close>

text \<open>
  What a caller can observe of a call of \<open>reduce_loss_dict\<close>: the cross-process calls
  and the mapping it got back, read through the heap the call left.
\<close>

definition observe ::
  "heap \<times> event list \<times> (error + addr) \<Rightarrow> (event list \<times> (error + (string \<times> real) list)) option" where
  "observe out =
     (case out of
        (h', evs, Inl e) \<Rightarrow> Some (evs, Inl e)
      | (h', evs, Inr r) \<Rightarrow>
          (case loss_values h' r of None \<Rightarrow> None | Some d \<Rightarrow> Some (evs, Inr d)))"

text \<open>
  The elementwise average of the workers' stacked losses, as the specification words it:
  position by position, the sum over all workers divided by their number.
\<close>

definition worker_average :: "real list list \<Rightarrow> real list" where
  "worker_average xss =
     map (\<lambda>j. sum_list (map (\<lambda>xs. xs ! j) xss) / real (length xss)) [0..<length (hd xss)]"

text \<open>A name that \<^verbatim>\<open>exec\<close> finds nowhere: not a local, not in the module, not a builtin.\<close>

definition unbound :: "('a env_scheme) \<Rightarrow> string \<Rightarrow> bool" where
  "unbound E k =
     (py_identifier E k \<and> k \<notin> set history_vars \<and> k \<notin> set frame_floats
      \<and> k \<notin> set frame_others \<and> k \<noteq> ''fig'' \<and> k \<notin> set module_names
      \<and> k \<notin> set (runtime_names E))"

text \<open>The scalar that a pass on batch \<open>b\<close> appends to the history of \<open>key\<close>.\<close>

definition logged_value :: "('a env_scheme) \<Rightarrow> string \<Rightarrow> batch \<Rightarrow> real" where
  "logged_value E key b =
     (case snd (reduced_values E (reduce_env b) (model_out b)) of
        Inl e \<Rightarrow> 0
      | Inr d \<Rightarrow> (case map_of d key of None \<Rightarrow> 0 | Some v \<Rightarrow> v))"

text \<open>The state of a pass at index \<open>i\<close> once the optimizer has stepped (after line 98).\<close>

definition after_step :: "int \<Rightarrow> batch \<Rightarrow> event list \<Rightarrow> (string \<times> real) list \<Rightarrow> state \<Rightarrow> state" where
  "after_step i b evs d st =
     emit [Backward i (py_sum (map snd (model_out b))), OptimizerStep i]
       (emit [MetersUpdate i (py_sum (map snd d)) d]
          (emit evs (emit [SchedulerStep i] (st\<lparr>arguments := i, iteration := Some i\<rparr>))))"

subsection \<open>Inputs for worked examples\<close>

text \<open>
  A single worker under an interpreter with the reserved words of Python 3 and a few of
  its builtins, a model that returns two of the four box-head and RPN losses, and an
  output directory whose four history files are empty.
\<close>

definition ex_env :: env where
  "ex_env =
     \<lparr>get_world_size = 1, get_rank = 0,
      py_keywords =
        [''False'', ''None'', ''True'', ''and'', ''as'', ''assert'', ''break'', ''class'',
         ''continue'', ''def'', ''del'', ''elif'', ''else'', ''except'', ''finally'', ''for'',
         ''from'', ''global'', ''if'', ''import'', ''in'', ''is'', ''lambda'', ''nonlocal'',
         ''not'', ''or'', ''pass'', ''raise'', ''return'', ''try'', ''while'', ''with'', ''yield''],
      runtime_names =
        [''__name__'', ''__doc__'', ''__file__'', ''__builtins__'', ''abs'', ''dict'', ''float'',
         ''int'', ''len'', ''list'', ''open'', ''print'', ''range'', ''str'', ''sum'', ''zip'']\<rparr>"

definition ex_io :: reduce_io where
  "ex_io = \<lparr>peers = [], leftover = (\<lambda>i. 0)\<rparr>"

definition ex_batch :: batch where
  "ex_batch =
     \<lparr>model_out = [(''loss_classifier'', 1), (''loss_box_reg'', 2)], reduce_env = ex_io\<rparr>"

text \<open>A model that returns all four losses, counted up from \<open>v\<close>.\<close>

definition ex_full :: "real \<Rightarrow> batch" where
  "ex_full v =
     \<lparr>model_out = [(''loss_classifier'', v), (''loss_box_reg'', v + 1),
                   (''loss_objectness'', v + 2), (''loss_rpn_box_reg'', v + 3)],
      reduce_env = ex_io\<rparr>"

definition ex_files :: "string \<Rightarrow> disk_file" where
  "ex_files = (\<lambda>path. RanOut)"

section \<open>Properties\<close>

subsection \<open>Dictionaries\<close>

lemma dict_set_fresh: "k \<notin> fst ` set d \<Longrightarrow> dict_set d k v = d @ [(k, v)]"
  by (induction d) auto

lemma foldl_dict_set_distinct:
  "distinct (map fst (acc @ kvs)) \<Longrightarrow> foldl (\<lambda>d (k, v). dict_set d k v) acc kvs = acc @ kvs"
proof (induction kvs arbitrary: acc)
  case Nil
  then show ?case by simp
next
  case (Cons kv kvs)
  obtain k v where kv: "kv = (k, v)" by (cases kv)
  from Cons.prems kv have fresh: "k \<notin> fst ` set acc" by auto
  from Cons.prems kv have "distinct (map fst ((acc @ [(k, v)]) @ kvs))" by simp
  from Cons.IH[OF this] show ?case using kv fresh by (simp add: dict_set_fresh)
qed

lemma dict_of_pairs_distinct: "distinct (map fst kvs) \<Longrightarrow> dict_of_pairs kvs = kvs"
  using foldl_dict_set_distinct[of "[]" kvs] by (simp add: dict_of_pairs_def)

subsection \<open>reduce_loss_dict with one worker\<close>

text \<open>
  Claim C6. With a worker count of 1, \<open>reduce_loss_dict\<close> returns the very object it
  was given (the same address), leaves the heap as it was, and makes no cross-process
  call (the list of calls is empty).
\<close>

theorem reduce_loss_dict_single_worker:
  "get_world_size c = 1 \<Longrightarrow> reduce_loss_dict c io h loss_dict = (h, [], Inr loss_dict)"
  by (simp add: reduce_loss_dict_def)

theorem reduce_loss_dict_single_worker_witness:
  "get_world_size \<lparr>get_world_size = 1, get_rank = 0\<rparr> = 1
   \<and> reduce_loss_dict \<lparr>get_world_size = 1, get_rank = 0\<rparr> \<lparr>peers = [], leftover = (\<lambda>i. 0)\<rparr>
        (heap_of [(''loss_classifier'', 1), (''loss_box_reg'', 2)]) 2
       = (heap_of [(''loss_classifier'', 1), (''loss_box_reg'', 2)], [], Inr 2)"
  using reduce_loss_dict_single_worker
          [of "\<lparr>get_world_size = 1, get_rank = 0\<rparr>" "\<lparr>peers = [], leftover = (\<lambda>i. 0)\<rparr>"
              "heap_of [(''loss_classifier'', 1), (''loss_box_reg'', 2)]" 2]
  by simp

subsection \<open>The heap across a call of reduce_loss_dict\<close>

lemma those_length: "those xs = Some ys \<Longrightarrow> length ys = length xs"
  by (induction xs arbitrary: ys) (auto split: option.splits)

lemma those_map_Some: "those (map (\<lambda>j. Some (f j)) js) = Some (map f js)"
  by (induction js) auto

lemma those_cong_Some:
  "those (map f xs) = Some ys \<Longrightarrow> (\<And>x v. x \<in> set xs \<Longrightarrow> f x = Some v \<Longrightarrow> g x = Some v)
   \<Longrightarrow> those (map g xs) = Some ys"
proof (induction xs arbitrary: ys)
  case Nil
  then show ?case by simp
next
  case (Cons x xs)
  from Cons.prems(1) obtain v vs where fx: "f x = Some v" and rest: "those (map f xs) = Some vs"
    and ys: "ys = v # vs"
    by (auto split: option.splits)
  have "g x = Some v" using Cons.prems(2)[of x v] fx by simp
  moreover have "those (map g xs) = Some vs"
    using Cons.IH[OF rest] Cons.prems(2) by simp
  ultimately show ?case using ys by simp
qed

lemma heap_get_append: "heap_get h a = Some x \<Longrightarrow> heap_get (h @ ext) a = Some x"
  by (auto simp: heap_get_def nth_append split: if_splits)

lemma item_append: "item h t = Some v \<Longrightarrow> item (h @ ext) t = Some v"
  by (cases t) (auto simp: item_def dest: heap_get_append[where ext = ext] split: option.splits obj.splits if_splits)

lemma dict_items_append: "dict_items h a = Some kvs \<Longrightarrow> dict_items (h @ ext) a = Some kvs"
  by (auto simp: dict_items_def dest: heap_get_append[where ext = ext] split: option.splits obj.splits)

lemma loss_values_append: "loss_values h a = Some d \<Longrightarrow> loss_values (h @ ext) a = Some d"
proof -
  assume lv: "loss_values h a = Some d"
  then obtain kvs xs where di: "dict_items h a = Some kvs"
    and th: "those (map (\<lambda>kv. item h (snd kv)) kvs) = Some xs"
    and d: "d = zip (map fst kvs) xs"
    by (auto simp: loss_values_def split: option.splits)
  have "those (map (\<lambda>kv. item (h @ ext) (snd kv)) kvs) = Some xs"
    by (rule those_cong_Some[OF th]) (simp add: item_append)
  with dict_items_append[OF di, of ext] d show ?thesis
    by (simp add: loss_values_def)
qed

lemma reduce_loss_dict_extends:
  "reduce_loss_dict c io h a = (h', evs, res) \<Longrightarrow> \<exists>ext. h' = h @ ext"
  by (auto simp: reduce_loss_dict_def alloc_def Let_def
           split: if_splits option.splits sum.splits)

lemma reduce_sum_length:
  "list_all (\<lambda>p. length p = length xs) ps \<Longrightarrow> length (reduce_sum xs ps) = length xs"
  unfolding reduce_sum_def
  by (induction ps arbitrary: xs) auto

lemma dist_reduce_length: "dist_reduce c io xs = Inr ys \<Longrightarrow> length ys = length xs"
  by (auto simp: dist_reduce_def reduce_sum_length list_ex_iff list_all_iff split: if_splits)

text \<open>
  Claim C7. \<open>reduce_loss_dict\<close> does not mutate its input, for every worker count: after
  the call the input mapping reads as before (the same keys with the same values), it
  holds the same tensor objects, and every object that existed before the call is
  unchanged. The stacked tensor that the collective and the division write into is a
  new object.
\<close>

theorem reduce_loss_dict_frame:
  assumes "reduce_loss_dict c io h loss_dict = (h', evs, res)"
    and "loss_values h loss_dict = Some d"
  shows "loss_values h' loss_dict = Some d
         \<and> dict_items h' loss_dict = dict_items h loss_dict
         \<and> (\<forall>a<length h. heap_get h' a = heap_get h a)"
proof -
  from reduce_loss_dict_extends[OF assms(1)] obtain ext where h': "h' = h @ ext" ..
  from assms(2) obtain kvs where di: "dict_items h loss_dict = Some kvs"
    by (auto simp: loss_values_def split: option.splits)
  have "\<forall>a<length h. heap_get h' a = heap_get h a"
    using h' by (simp add: heap_get_def nth_append)
  with loss_values_append[OF assms(2), of ext] dict_items_append[OF di, of ext] di h'
  show ?thesis by simp
qed

lemma frame_example_run:
  "reduce_loss_dict \<lparr>get_world_size = 2, get_rank = 0\<rparr> \<lparr>peers = [[3, 5]], leftover = (\<lambda>i. 0)\<rparr>
      (heap_of [(''loss_classifier'', 1), (''loss_box_reg'', 2)]) 2
   = ([Storage [1], Storage [2],
       Dict [(''loss_classifier'', Tensor 0 0), (''loss_box_reg'', Tensor 1 0)],
       Storage [2, 7 / 2],
       Dict [(''loss_classifier'', Tensor 3 0), (''loss_box_reg'', Tensor 3 1)]],
      [Reduce [1, 2]], Inr 4)"
  by (simp add: reduce_loss_dict_def heap_of_def dict_items_def heap_get_def item_def alloc_def
        dist_reduce_def reduce_sum_def dict_of_pairs_def Let_def)

lemma frame_example_values:
  "loss_values (heap_of [(''loss_classifier'', 1), (''loss_box_reg'', 2)]) 2
   = Some [(''loss_classifier'', 1), (''loss_box_reg'', 2)]"
  by (simp add: loss_values_def heap_of_def dict_items_def heap_get_def item_def)

theorem reduce_loss_dict_frame_witness:
  "reduce_loss_dict \<lparr>get_world_size = 2, get_rank = 0\<rparr> \<lparr>peers = [[3, 5]], leftover = (\<lambda>i. 0)\<rparr>
      (heap_of [(''loss_classifier'', 1), (''loss_box_reg'', 2)]) 2
   = ([Storage [1], Storage [2],
       Dict [(''loss_classifier'', Tensor 0 0), (''loss_box_reg'', Tensor 1 0)],
       Storage [2, 7 / 2],
       Dict [(''loss_classifier'', Tensor 3 0), (''loss_box_reg'', Tensor 3 1)]],
      [Reduce [1, 2]], Inr 4)
   \<and> loss_values (heap_of [(''loss_classifier'', 1), (''loss_box_reg'', 2)]) 2
       = Some [(''loss_classifier'', 1), (''loss_box_reg'', 2)]
   \<and> loss_values [Storage [1], Storage [2],
       Dict [(''loss_classifier'', Tensor 0 0), (''loss_box_reg'', Tensor 1 0)],
       Storage [2, 7 / 2],
       Dict [(''loss_classifier'', Tensor 3 0), (''loss_box_reg'', Tensor 3 1)]] 2
       = Some [(''loss_classifier'', 1), (''loss_box_reg'', 2)]
   \<and> heap_get [Storage [1], Storage [2],
       Dict [(''loss_classifier'', Tensor 0 0), (''loss_box_reg'', Tensor 1 0)],
       Storage [2, 7 / 2],
       Dict [(''loss_classifier'', Tensor 3 0), (''loss_box_reg'', Tensor 3 1)]] 0
       = heap_get (heap_of [(''loss_classifier'', 1), (''loss_box_reg'', 2)]) 0"
  using reduce_loss_dict_frame[OF frame_example_run frame_example_values]
        frame_example_run frame_example_values
  by (simp add: heap_of_def)

subsection \<open>The heap function and the function on values\<close>

lemma observe_single:
  "get_world_size c < 2 \<Longrightarrow> loss_values h a = Some d
   \<Longrightarrow> observe (reduce_loss_dict c io h a) = Some (reduced_values c io d)"
  by (simp add: reduce_loss_dict_def reduced_values_def observe_def)

lemma loss_values_parts:
  assumes "loss_values h a = Some d"
  obtains kvs where "dict_items h a = Some kvs"
    and "those (map (item h) (map snd kvs)) = Some (map snd d)"
    and "map fst kvs = map fst d" and "length kvs = length d"
proof -
  from assms obtain kvs xs where di: "dict_items h a = Some kvs"
    and th: "those (map (\<lambda>kv. item h (snd kv)) kvs) = Some xs"
    and d: "d = zip (map fst kvs) xs"
    by (auto simp: loss_values_def split: option.splits)
  from those_length[OF th] have len: "length xs = length kvs" by simp
  have m: "map (item h) (map snd kvs) = map (\<lambda>kv. item h (snd kv)) kvs" by simp
  have s: "map snd d = xs" using d len by simp
  have f: "map fst kvs = map fst d" using d len by simp
  have l: "length kvs = length d" using d len by simp
  show ?thesis by (rule that[OF di _ f l]) (simp only: m th s)
qed

lemma views_read:
  "those (map (\<lambda>j. item (h @ [Storage ys, x]) (Tensor (length h) j)) [0..<length ys]) = Some ys"
proof -
  have "map (\<lambda>j. item (h @ [Storage ys, x]) (Tensor (length h) j)) [0..<length ys]
        = map (\<lambda>j. Some (ys ! j)) [0..<length ys]"
    by (simp add: item_def heap_get_def nth_append)
  then show ?thesis by (simp only: those_map_Some map_nth)
qed

lemma loss_values_result:
  assumes "length names = length ys"
  shows "loss_values (h @ [Storage ys, Dict (zip names (map (Tensor (length h)) [0..<length ys]))])
           (Suc (length h)) = Some (zip names ys)"
proof -
  let ?views = "map (Tensor (length h)) [0..<length ys]"
  let ?h = "h @ [Storage ys, Dict (zip names ?views)]"
  have di: "dict_items ?h (Suc (length h)) = Some (zip names ?views)"
    by (simp add: dict_items_def heap_get_def nth_append)
  have "map (\<lambda>kv. item ?h (snd kv)) (zip names ?views) = map (item ?h) (map snd (zip names ?views))"
    by simp
  also have "map snd (zip names ?views) = ?views" using assms by simp
  also have "map (item ?h) ?views = map (\<lambda>j. item ?h (Tensor (length h) j)) [0..<length ys]"
    by (simp add: comp_def)
  finally have "those (map (\<lambda>kv. item ?h (snd kv)) (zip names ?views)) = Some ys"
    using views_read[of h ys "Dict (zip names ?views)"] by simp
  with di assms show ?thesis by (simp add: loss_values_def)
qed

lemma reduce_loss_dict_values:
  assumes lv: "loss_values h a = Some d" and dist: "distinct (map fst d)"
  shows "observe (reduce_loss_dict c io h a) = Some (reduced_values c io d)"
proof (cases "get_world_size c < 2")
  case True
  then show ?thesis using lv by (rule observe_single)
next
  case many: False
  from lv obtain kvs where di: "dict_items h a = Some kvs"
    and th: "those (map (item h) (map snd kvs)) = Some (map snd d)"
    and names: "map fst kvs = map fst d" and len: "length kvs = length d"
    by (rule loss_values_parts)
  show ?thesis
  proof (cases "d = []")
    case True
    with len have "kvs = []" by simp
    with many di True show ?thesis
      by (simp add: reduce_loss_dict_def reduced_values_def observe_def)
  next
    case nonempty: False
    with len have kvs: "kvs \<noteq> []" by auto
    show ?thesis
    proof (cases "dist_reduce c io (map snd d)")
      case (Inl e)
      with many di th kvs nonempty show ?thesis
        by (simp add: reduce_loss_dict_def reduced_values_def observe_def alloc_def)
    next
      case (Inr ys)
      define zs where "zs = (if get_rank c = 0
                             then map (\<lambda>y. y / real (get_world_size c)) ys else ys)"
      from dist_reduce_length[OF Inr] have ly: "length ys = length d" by simp
      then have lz: "length zs = length d" by (simp add: zs_def)
      have lnames: "length (map fst d) = length zs" using lz by simp
      have "distinct (map fst (zip (map fst d) (map (Tensor (length h)) [0..<length d])))"
        using dist by simp
      from dict_of_pairs_distinct[OF this]
      have dv: "dict_of_pairs (zip (map fst d) (map (Tensor (length h)) [0..<length d]))
                = zip (map fst d) (map (Tensor (length h)) [0..<length d])" .
      have "distinct (map fst (zip (map fst d) zs))" using dist lz by simp
      from dict_of_pairs_distinct[OF this]
      have dz: "dict_of_pairs (zip (map fst d) zs) = zip (map fst d) zs" .
      have stacked: "(h @ [Storage (map snd d)])[length h := Storage ys] = h @ [Storage ys]"
        by simp
      have run: "reduce_loss_dict c io h a
                 = (h @ [Storage zs, Dict (zip (map fst d) (map (Tensor (length h)) [0..<length zs]))],
                    [Reduce (map snd d)], Inr (Suc (length h)))"
        using many di th kvs Inr names dv ly lz
        by (simp add: reduce_loss_dict_def alloc_def zs_def Let_def)
      have "reduced_values c io d = ([Reduce (map snd d)], Inr (zip (map fst d) zs))"
        using many nonempty Inr dz
        by (auto simp add: reduced_values_def zs_def Let_def)
      with run loss_values_result[OF lnames, of h] show ?thesis
        by (simp add: observe_def)
    qed
  qed
qed

lemma heap_of_values: "loss_values (heap_of d) (length d) = Some d"
proof -
  let ?ts = "map (\<lambda>j. Tensor j 0) [0..<length d]"
  have di: "dict_items (heap_of d) (length d) = Some (zip (map fst d) ?ts)"
    by (simp add: dict_items_def heap_get_def heap_of_def nth_append)
  have "map (\<lambda>kv. item (heap_of d) (snd kv)) (zip (map fst d) ?ts)
        = map (\<lambda>j. Some (snd (d ! j))) [0..<length d]"
    by (rule nth_equalityI) (simp_all add: item_def heap_get_def heap_of_def nth_append)
  then have "those (map (\<lambda>kv. item (heap_of d) (snd kv)) (zip (map fst d) ?ts))
                = Some (map (\<lambda>j. snd (d ! j)) [0..<length d])"
    by (simp only: those_map_Some)
  moreover have "map (\<lambda>j. snd (d ! j)) [0..<length d] = map snd d"
    by (rule nth_equalityI) simp_all
  ultimately show ?thesis using di by (simp add: loss_values_def zip_map_fst_snd)
qed

text \<open>
  On the heap that the model call leaves, a caller of \<open>reduce_loss_dict\<close> observes
  what \<open>reduced_values\<close> computes from the model's mapping.
\<close>

lemma reduce_loss_dict_on_model_heap:
  "distinct (map fst d)
   \<Longrightarrow> observe (reduce_loss_dict c io (heap_of d) (length d)) = Some (reduced_values c io d)"
  by (rule reduce_loss_dict_values[OF heap_of_values])

subsection \<open>The reduced mapping with two or more workers\<close>

lemma reduce_sum_nth:
  "list_all (\<lambda>p. length p = length xs) ps \<Longrightarrow> j < length xs
   \<Longrightarrow> reduce_sum xs ps ! j = xs ! j + sum_list (map (\<lambda>p. p ! j) ps)"
  unfolding reduce_sum_def
proof (induction ps arbitrary: xs)
  case Nil
  then show ?case by simp
next
  case (Cons p ps)
  from Cons.prems have lp: "length p = length xs"
    and rest: "list_all (\<lambda>q. length q = length (map2 (+) xs p)) ps"
    and j: "j < length (map2 (+) xs p)"
    by simp_all
  from Cons.IH[OF rest j] lp Cons.prems(2) show ?case by simp
qed

lemma reduce_sum_average:
  assumes "list_all (\<lambda>p. length p = length xs) ps"
  shows "map (\<lambda>y. y / real (Suc (length ps))) (reduce_sum xs ps) = worker_average (xs # ps)"
proof (rule nth_equalityI)
  show "length (map (\<lambda>y. y / real (Suc (length ps))) (reduce_sum xs ps))
        = length (worker_average (xs # ps))"
    using assms by (simp add: worker_average_def reduce_sum_length)
next
  fix j
  assume "j < length (map (\<lambda>y. y / real (Suc (length ps))) (reduce_sum xs ps))"
  then have j: "j < length xs" using assms by (simp add: reduce_sum_length)
  then show "map (\<lambda>y. y / real (Suc (length ps))) (reduce_sum xs ps) ! j
             = worker_average (xs # ps) ! j"
    using assms by (simp add: worker_average_def reduce_sum_length reduce_sum_nth)
qed

text \<open>
  Claim C3, as amended. With two or more workers, a non-empty Loss Mapping, every rank
  of the group taking part and contributing as many losses as this worker has keys
  (identical keys on all workers), \<open>reduce_loss_dict\<close> makes one collective call and
  returns a mapping with the keys of its input in the same order. On rank 0 the values
  are the elementwise average of all workers' values. On any other rank they are what
  the collective left in that rank's buffer, undivided; nothing makes that the sum.
\<close>

theorem reduce_loss_dict_average:
  assumes "2 \<le> get_world_size c"
    and "loss_values h loss_dict = Some d" and "distinct (map fst d)" and "d \<noteq> []"
    and "Suc (length (peers io)) = get_world_size c"
    and "list_all (\<lambda>p. length p = length d) (peers io)"
  shows "observe (reduce_loss_dict c io h loss_dict)
         = Some ([Reduce (map snd d)],
                 Inr (zip (map fst d)
                        (if get_rank c = 0 then worker_average (map snd d # peers io)
                         else map (leftover io) [0..<length d])))"
proof -
  let ?xs = "map snd d"
  have same: "list_all (\<lambda>p. length p = length ?xs) (peers io)" using assms(6) by simp
  then have ok: "\<not> list_ex (\<lambda>p. length p \<noteq> length ?xs) (peers io)"
    by (simp add: list_all_iff list_ex_iff)
  let ?ys = "if get_rank c = 0 then reduce_sum ?xs (peers io)
             else map (leftover io) [0..<length ?xs]"
  have red: "dist_reduce c io ?xs = Inr ?ys"
    using assms(5) ok by (simp add: dist_reduce_def)
  let ?zs = "if get_rank c = 0 then worker_average (?xs # peers io)
             else map (leftover io) [0..<length d]"
  have zs: "(if get_rank c = 0 then map (\<lambda>y. y / real (get_world_size c)) ?ys else ?ys) = ?zs"
    using reduce_sum_average[OF same] assms(5) by simp
  have lz: "length ?zs = length d"
    using reduce_sum_average[OF same, symmetric] same by (simp add: reduce_sum_length)
  then have "distinct (map fst (zip (map fst d) ?zs))" using assms(3) by simp
  from dict_of_pairs_distinct[OF this]
  have dz: "dict_of_pairs (zip (map fst d) ?zs) = zip (map fst d) ?zs" .
  have "reduced_values c io d = ([Reduce ?xs], Inr (zip (map fst d) ?zs))"
    using assms(1,4) red zs dz by (simp add: reduced_values_def Let_def)
  with reduce_loss_dict_values[OF assms(2,3), of c io] show ?thesis by simp
qed

lemma average_example_values:
  "loss_values (heap_of [(''loss_objectness'', 1), (''loss_rpn_box_reg'', 2)]) 2
   = Some [(''loss_objectness'', 1), (''loss_rpn_box_reg'', 2)]"
  by (simp add: loss_values_def heap_of_def dict_items_def heap_get_def item_def)

theorem reduce_loss_dict_average_witness:
  "observe (reduce_loss_dict \<lparr>get_world_size = 2, get_rank = 0\<rparr>
              \<lparr>peers = [[3, 5]], leftover = (\<lambda>i. 0)\<rparr>
              (heap_of [(''loss_objectness'', 1), (''loss_rpn_box_reg'', 2)]) 2)
   = Some ([Reduce [1, 2]], Inr [(''loss_objectness'', 2), (''loss_rpn_box_reg'', 7 / 2)])"
  using reduce_loss_dict_average
          [of "\<lparr>get_world_size = 2, get_rank = 0\<rparr>"
              "heap_of [(''loss_objectness'', 1), (''loss_rpn_box_reg'', 2)]" 2
              "[(''loss_objectness'', 1), (''loss_rpn_box_reg'', 2)]"
              "\<lparr>peers = [[3, 5]], leftover = (\<lambda>i. 0)\<rparr>"]
        average_example_values
  by (simp add: worker_average_def)

text \<open>
  Claim C3 as stated fails on a rank other than 0 whose buffer the collective leaves
  as it was: the returned values are this worker's own losses, not the sum over the
  workers. It also fails for the empty mapping, on which \<^verbatim>\<open>torch.stack\<close> raises.
\<close>

theorem reduce_loss_dict_average_counterexample:
  "observe (reduce_loss_dict \<lparr>get_world_size = 2, get_rank = 1\<rparr>
              \<lparr>peers = [[3, 5]], leftover = (\<lambda>i. [1, 2] ! i)\<rparr>
              (heap_of [(''loss_objectness'', 1), (''loss_rpn_box_reg'', 2)]) 2)
     = Some ([Reduce [1, 2]], Inr [(''loss_objectness'', 1), (''loss_rpn_box_reg'', 2)])
   \<and> reduce_sum [1, 2] [[3, 5]] = [4, 7]
   \<and> observe (reduce_loss_dict \<lparr>get_world_size = 2, get_rank = 0\<rparr>
                \<lparr>peers = [[]], leftover = (\<lambda>i. 0)\<rparr> (heap_of []) 0)
     = Some ([], Inl StackError)"
  by (simp add: observe_def reduce_loss_dict_def loss_values_def heap_of_def dict_items_def
        heap_get_def item_def alloc_def dist_reduce_def reduce_sum_def dict_of_pairs_def Let_def)

subsection \<open>The persistence step, the plots and one pass of the loop\<close>

lemma persist_key_cases:
  assumes "persist_key E d st k = (st', r)"
  shows "(r \<noteq> None \<and> st' = st)
       \<or> (r = None \<and> k \<in> set history_vars
           \<and> (\<exists>v. map_of d k = Some v
                \<and> st' = st\<lparr>hists := (hists st)(k := hists st k @ [v]),
                            files := (files st)(history_path k := Pickled (hists st k @ [v])),
                            trace := trace st @ [Dump k (hists st k @ [v])]\<rparr>))"
  using assms
  by (auto simp: persist_key_def resolve_def Let_def
           split: sum.splits binding.splits option.splits if_splits)

lemma persist_frame:
  "persist E d ks st = (st', r)
   \<Longrightarrow> arguments st' = arguments st \<and> iteration st' = iteration st
       \<and> fig_bound st' = fig_bound st"
proof (induction ks arbitrary: st)
  case Nil
  then show ?case by simp
next
  case (Cons k ks)
  obtain st1 r1 where pk: "persist_key E d st k = (st1, r1)" by (cases "persist_key E d st k")
  from persist_key_cases[OF pk]
  have fr: "arguments st1 = arguments st \<and> iteration st1 = iteration st
            \<and> fig_bound st1 = fig_bound st"
    by auto
  show ?case
  proof (cases r1)
    case None
    with Cons.prems pk have "persist E d ks st1 = (st', r)" by simp
    from Cons.IH[OF this] fr show ?thesis by simp
  next
    case (Some e)
    with Cons.prems pk fr show ?thesis by simp
  qed
qed

lemma persist_proj:
  assumes "persist E d ks st = (st', r)" and "\<And>k xs. f (Dump k xs) = []"
  shows "concat (map f (trace st')) = concat (map f (trace st))"
  using assms(1)
proof (induction ks arbitrary: st)
  case Nil
  then show ?case by simp
next
  case (Cons k ks)
  obtain st1 r1 where pk: "persist_key E d st k = (st1, r1)" by (cases "persist_key E d st k")
  from persist_key_cases[OF pk] assms(2)
  have fr: "concat (map f (trace st1)) = concat (map f (trace st))"
    by auto
  show ?case
  proof (cases r1)
    case None
    with Cons.prems pk have "persist E d ks st1 = (st', r)" by simp
    from Cons.IH[OF this] fr show ?thesis by simp
  next
    case (Some e)
    with Cons.prems pk fr show ?thesis by simp
  qed
qed

lemma persist_keys_known:
  "persist E d ks st = (st', None) \<Longrightarrow> set ks \<subseteq> set history_vars"
proof (induction ks arbitrary: st)
  case Nil
  then show ?case by simp
next
  case (Cons k ks)
  obtain st1 r1 where pk: "persist_key E d st k = (st1, r1)" by (cases "persist_key E d st k")
  with Cons.prems have r1: "r1 = None" and rest: "persist E d ks st1 = (st', None)"
    by (auto split: option.splits)
  from persist_key_cases[OF pk] r1 have "k \<in> set history_vars" by auto
  with Cons.IH[OF rest] show ?case by simp
qed

lemma history_path_inj: "history_path k = history_path k' \<longleftrightarrow> k = k'"
  by (simp add: history_path_def)

text \<open>The effect of a completed persistence step on one key.\<close>

lemma persist_effect:
  assumes "persist E d ks st = (st', None)" and "distinct ks"
  shows "(key \<in> set ks \<longrightarrow>
            (\<exists>v. map_of d key = Some v
               \<and> hists st' key = hists st key @ [v]
               \<and> files st' (history_path key) = Pickled (hists st key @ [v])
               \<and> dumps key (trace st') = dumps key (trace st) @ [hists st key @ [v]]))
       \<and> (key \<notin> set ks \<longrightarrow>
            hists st' key = hists st key
            \<and> files st' (history_path key) = files st (history_path key)
            \<and> dumps key (trace st') = dumps key (trace st))"
  using assms
proof (induction ks arbitrary: st)
  case Nil
  then show ?case by simp
next
  case (Cons k ks)
  obtain st1 r1 where pk: "persist_key E d st k = (st1, r1)" by (cases "persist_key E d st k")
  with Cons.prems have r1: "r1 = None" and rest: "persist E d ks st1 = (st', None)"
    by (auto split: option.splits)
  from persist_key_cases[OF pk] r1 obtain v where v: "map_of d k = Some v"
    and st1: "st1 = st\<lparr>hists := (hists st)(k := hists st k @ [v]),
                        files := (files st)(history_path k := Pickled (hists st k @ [v])),
                        trace := trace st @ [Dump k (hists st k @ [v])]\<rparr>"
    by auto
  from Cons.prems(2) have dks: "distinct ks" and kn: "k \<notin> set ks" by simp_all
  note IH = Cons.IH[OF rest dks]
  show ?case
  proof (cases "key = k")
    case True
    with kn IH v st1 show ?thesis by (simp add: dumps_def)
  next
    case False
    with IH st1 show ?thesis by (simp add: dumps_def history_path_inj)
  qed
qed


lemma plot_key_cases:
  assumes "plot_key E st k = (st', r)"
  shows "arguments st' = arguments st \<and> iteration st' = iteration st
         \<and> hists st' = hists st \<and> files st' = files st
         \<and> (trace st' = trace st \<or> trace st' = trace st @ [Plot k])"
  using assms
  by (auto simp: plot_key_def emit_def Let_def split: sum.splits binding.splits)

lemma plot_keys_frame:
  "plot_keys E ks st = (st', r)
   \<Longrightarrow> arguments st' = arguments st \<and> iteration st' = iteration st
       \<and> hists st' = hists st \<and> files st' = files st"
proof (induction ks arbitrary: st)
  case Nil
  then show ?case by simp
next
  case (Cons k ks)
  obtain st1 r1 where pk: "plot_key E st k = (st1, r1)" by (cases "plot_key E st k")
  note fr = plot_key_cases[OF pk]
  show ?case
  proof (cases r1)
    case None
    with Cons.prems pk have "plot_keys E ks st1 = (st', r)" by simp
    from Cons.IH[OF this] fr show ?thesis by simp
  next
    case (Some e)
    with Cons.prems pk fr show ?thesis by simp
  qed
qed

lemma plot_keys_proj:
  assumes "plot_keys E ks st = (st', r)" and "\<And>k. f (Plot k) = []"
  shows "concat (map f (trace st')) = concat (map f (trace st))"
  using assms(1)
proof (induction ks arbitrary: st)
  case Nil
  then show ?case by simp
next
  case (Cons k ks)
  obtain st1 r1 where pk: "plot_key E st k = (st1, r1)" by (cases "plot_key E st k")
  from plot_key_cases[OF pk] assms(2)
  have fr: "concat (map f (trace st1)) = concat (map f (trace st))"
    by auto
  show ?case
  proof (cases r1)
    case None
    with Cons.prems pk have "plot_keys E ks st1 = (st', r)" by simp
    from Cons.IH[OF this] fr show ?thesis by simp
  next
    case (Some e)
    with Cons.prems pk fr show ?thesis by simp
  qed
qed

lemma reduced_values_events:
  "reduced_values c io d = (evs, res) \<Longrightarrow> evs = [] \<or> evs = [Reduce (map snd d)]"
  by (auto simp: reduced_values_def Let_def split: if_splits sum.splits)

lemma after_step_simps:
  "trace (after_step i b evs d st)
     = trace st @ SchedulerStep i # evs
         @ [MetersUpdate i (py_sum (map snd d)) d,
            Backward i (py_sum (map snd (model_out b))), OptimizerStep i]"
  "arguments (after_step i b evs d st) = i"
  "iteration (after_step i b evs d st) = Some i"
  "hists (after_step i b evs d st) = hists st"
  "files (after_step i b evs d st) = files st"
  "fig_bound (after_step i b evs d st) = fig_bound st"
  by (simp_all add: after_step_def emit_def)

text \<open>One pass of the loop, by the place where it ends.\<close>

lemma loop_body_cases:
  assumes "loop_body E m P i b st = (st', r)"
  obtains
    (stopped_early) evs where "evs = [] \<or> evs = [Reduce (map snd (model_out b))]"
      and "r \<noteq> None"
      and "trace st' = trace st @ SchedulerStep i # evs
           \<or> (\<exists>d'. trace st' = trace st @ SchedulerStep i # evs
                                 @ [MetersUpdate i (py_sum (map snd d')) d'])"
      and "arguments st' = i" and "iteration st' = Some i"
      and "hists st' = hists st" and "files st' = files st"
  | (persist_failed) evs d' e where "evs = [] \<or> evs = [Reduce (map snd (model_out b))]"
      and "reduced_values E (reduce_env b) (model_out b) = (evs, Inr d')"
      and "''loss'' \<notin> set (map fst d')" and "model_out b \<noteq> []"
      and "persist E d' (map fst d') (after_step i b evs d' st) = (st', Some e)"
      and "r = Some e"
  | (plot_failed) evs d' st4 e where "evs = [] \<or> evs = [Reduce (map snd (model_out b))]"
      and "reduced_values E (reduce_env b) (model_out b) = (evs, Inr d')"
      and "''loss'' \<notin> set (map fst d')" and "model_out b \<noteq> []"
      and "persist E d' (map fst d') (after_step i b evs d' st) = (st4, None)"
      and "i mod 20 = 0 \<or> i = m - 1"
      and "plot_keys E (map fst d') (emit [Log i] st4) = (st', Some e)"
      and "r = Some e"
  | (completed) evs d' st4 st5 where "evs = [] \<or> evs = [Reduce (map snd (model_out b))]"
      and "reduced_values E (reduce_env b) (model_out b) = (evs, Inr d')"
      and "''loss'' \<notin> set (map fst d')" and "model_out b \<noteq> []"
      and "persist E d' (map fst d') (after_step i b evs d' st) = (st4, None)"
      and "(if i mod 20 = 0 \<or> i = m - 1
            then plot_keys E (map fst d') (emit [Log i] st4) else (st4, None)) = (st5, None)"
      and "if P = 0 then st' = st5 \<and> r = Some ZeroDivisionError
           else if i mod P = 0 \<and> 0 < i
                then st' = emit [Save i (arguments st5), Val i] st5 \<and> r = None
                else st' = st5 \<and> r = None"
proof -
  define st1 where "st1 = emit [SchedulerStep i] (st\<lparr>arguments := i, iteration := Some i\<rparr>)"
  obtain evs res where rv: "reduced_values E (reduce_env b) (model_out b) = (evs, res)"
    by (cases "reduced_values E (reduce_env b) (model_out b)")
  note ev = reduced_values_events[OF rv]
  show ?thesis
  proof (cases res)
    case (Inl e)
    with assms rv have "st' = emit evs st1" "r = Some e"
      by (simp_all add: loop_body_def st1_def Let_def)
    then show ?thesis using ev
      by (intro stopped_early[of evs]) (auto simp: st1_def emit_def)
  next
    case (Inr d')
    show ?thesis
    proof (cases "''loss'' \<in> set (map fst d')")
      case True
      with assms rv Inr have "st' = emit evs st1" "r = Some (TypeError ''loss'')"
        by (simp_all add: loop_body_def st1_def Let_def)
      then show ?thesis using ev
        by (intro stopped_early[of evs]) (auto simp: st1_def emit_def)
    next
      case noloss: False
      define st2 where "st2 = emit [MetersUpdate i (py_sum (map snd d')) d'] (emit evs st1)"
      show ?thesis
      proof (cases "model_out b = []")
        case True
        with assms rv Inr noloss have "st' = st2" "r = Some (AttributeError ''backward'')"
          by (simp_all add: loop_body_def st1_def st2_def Let_def)
        then show ?thesis using ev
          by (intro stopped_early[of evs]) (auto simp: st1_def st2_def emit_def)
      next
        case nonempty: False
        let ?st3 = "after_step i b evs d' st"
        obtain st4 r4 where p: "persist E d' (map fst d') ?st3 = (st4, r4)"
          by (cases "persist E d' (map fst d') ?st3")
        obtain st5 r5 where pl: "(if i mod 20 = 0 \<or> i = m - 1
                                  then plot_keys E (map fst d') (emit [Log i] st4)
                                  else (st4, None)) = (st5, r5)"
          by (cases "if i mod 20 = 0 \<or> i = m - 1
                     then plot_keys E (map fst d') (emit [Log i] st4) else (st4, None)")
        have body: "(case r4 of Some e \<Rightarrow> (st4, Some e)
                     | None \<Rightarrow>
                        (case r5 of
                           Some e \<Rightarrow> (st5, Some e)
                         | None \<Rightarrow>
                             if P = 0 then (st5, Some ZeroDivisionError)
                             else if i mod P = 0 \<and> i > 0
                             then (emit [Save i (arguments st5), Val i] st5, None)
                             else (st5, None))) = (st', r)"
          using assms rv Inr noloss nonempty p pl
          by (simp add: loop_body_def after_step_def Let_def)
        show ?thesis
        proof (cases r4)
          case (Some e)
          with body p have "persist E d' (map fst d') ?st3 = (st', Some e)" "r = Some e"
            by simp_all
          with ev rv Inr noloss nonempty show ?thesis
            by (intro persist_failed[of evs d' e]) simp_all
        next
          case p_ok: None
          show ?thesis
          proof (cases r5)
            case (Some e)
            with pl have lg: "i mod 20 = 0 \<or> i = m - 1" by (auto split: if_splits)
            with pl Some have "plot_keys E (map fst d') (emit [Log i] st4) = (st5, Some e)"
              by simp
            moreover from body p_ok Some have "st' = st5" "r = Some e" by simp_all
            ultimately show ?thesis using ev rv Inr noloss nonempty p p_ok lg
              by (intro plot_failed[of evs d' st4 e]) simp_all
          next
            case None
            with body p_ok
            have "if P = 0 then st' = st5 \<and> r = Some ZeroDivisionError
                  else if i mod P = 0 \<and> 0 < i
                       then st' = emit [Save i (arguments st5), Val i] st5 \<and> r = None
                       else st' = st5 \<and> r = None"
              by (auto split: if_splits)
            with ev rv Inr noloss nonempty p p_ok pl None show ?thesis
              by (intro completed[of evs d' st4 st5]) simp_all
          qed
        qed
      qed
    qed
  qed
qed


text \<open>
  What a pass adds to a reading \<open>f\<close> of the trace that ignores the collective, the
  meters, the dumps, the log lines and the plots.
\<close>

lemma loop_body_proj:
  assumes body: "loop_body E m P i b st = (st', r)"
    and quiet: "\<And>xs. f (Reduce xs) = []" "\<And>j v d. f (MetersUpdate j v d) = []"
      "\<And>k xs. f (Dump k xs) = []" "\<And>j. f (Log j) = []" "\<And>k. f (Plot k) = []"
  shows "\<exists>stepped. (r = None \<longrightarrow> stepped)
           \<and> concat (map f (trace st'))
               = concat (map f (trace st)) @ f (SchedulerStep i)
                 @ (if stepped
                    then f (Backward i (py_sum (map snd (model_out b)))) @ f (OptimizerStep i)
                    else [])
                 @ (if r = None \<and> i mod P = 0 \<and> 0 < i then f (Save i i) @ f (Val i) else [])"
  using body
proof (cases rule: loop_body_cases)
  case (stopped_early evs)
  then have "concat (map f (trace st')) = concat (map f (trace st)) @ f (SchedulerStep i)"
    using quiet by auto
  with stopped_early(2) show ?thesis by (intro exI[of _ False]) auto
next
  case (persist_failed evs d' e)
  from persist_proj[OF persist_failed(5), of f] quiet persist_failed(1)
  have "concat (map f (trace st'))
        = concat (map f (trace st)) @ f (SchedulerStep i)
          @ f (Backward i (py_sum (map snd (model_out b)))) @ f (OptimizerStep i)"
    by (auto simp: after_step_simps)
  with persist_failed(6) show ?thesis by (intro exI[of _ True]) simp
next
  case (plot_failed evs d' st4 e)
  from persist_proj[OF plot_failed(5), of f] quiet plot_failed(1)
  have "concat (map f (trace st4))
        = concat (map f (trace st)) @ f (SchedulerStep i)
          @ f (Backward i (py_sum (map snd (model_out b)))) @ f (OptimizerStep i)"
    by (auto simp: after_step_simps)
  moreover from plot_keys_proj[OF plot_failed(7), of f] quiet
  have "concat (map f (trace st')) = concat (map f (trace st4))"
    by (simp add: emit_def)
  ultimately show ?thesis using plot_failed(8) by (intro exI[of _ True]) simp
next
  case (completed evs d' st4 st5)
  from persist_proj[OF completed(5), of f] quiet completed(1)
  have t4: "concat (map f (trace st4))
        = concat (map f (trace st)) @ f (SchedulerStep i)
          @ f (Backward i (py_sum (map snd (model_out b)))) @ f (OptimizerStep i)"
    by (auto simp: after_step_simps)
  from persist_frame[OF completed(5)] have a4: "arguments st4 = i"
    by (simp add: after_step_simps)
  have t5: "concat (map f (trace st5)) = concat (map f (trace st4)) \<and> arguments st5 = i"
  proof (cases "i mod 20 = 0 \<or> i = m - 1")
    case True
    with completed(6) have pl: "plot_keys E (map fst d') (emit [Log i] st4) = (st5, None)"
      by simp
    from plot_keys_proj[OF pl, of f] plot_keys_frame[OF pl] quiet a4 show ?thesis
      by (simp add: emit_def)
  next
    case False
    with completed(6) a4 show ?thesis by simp
  qed
  show ?thesis
    using completed(7) t4 t5
    by (intro exI[of _ True]) (auto simp: emit_def split: if_splits)
qed

lemma loop_body_steps:
  assumes "loop_body E m P i b st = (st', r)"
  shows "steps (trace st') = steps (trace st) @ [i]"
  using loop_body_proj[OF assms, of "\<lambda>ev. case ev of SchedulerStep i \<Rightarrow> [i] | _ \<Rightarrow> []", simplified]
  by (auto simp add: steps_def cong: if_cong)

lemma loop_body_saves:
  assumes "loop_body E m P i b st = (st', r)"
  shows "saves (trace st')
       = saves (trace st) @ (if r = None \<and> i mod P = 0 \<and> 0 < i then [(i, i)] else [])"
  using loop_body_proj[OF assms, of "\<lambda>ev. case ev of Save i a \<Rightarrow> [(i, a)] | _ \<Rightarrow> []", simplified]
  by (auto simp add: saves_def cong: if_cong)

lemma loop_body_vals:
  assumes "loop_body E m P i b st = (st', r)"
  shows "vals (trace st')
       = vals (trace st) @ (if r = None \<and> i mod P = 0 \<and> 0 < i then [i] else [])"
  using loop_body_proj[OF assms, of "\<lambda>ev. case ev of Val i \<Rightarrow> [i] | _ \<Rightarrow> []", simplified]
  by (auto simp add: vals_def cong: if_cong)

lemma loop_body_backwards:
  assumes "loop_body E m P i b st = (st', r)"
  shows "\<exists>stepped. (r = None \<longrightarrow> stepped)
         \<and> backwards (trace st')
             = backwards (trace st)
               @ (if stepped then [py_sum (map snd (model_out b))] else [])"
  using loop_body_proj[OF assms, of "\<lambda>ev. case ev of Backward i v \<Rightarrow> [v] | _ \<Rightarrow> []", simplified]
  by (auto simp add: backwards_def cong: if_cong)

lemma loop_body_frame:
  assumes "loop_body E m P i b st = (st', r)"
  shows "arguments st' = i \<and> iteration st' = Some i"
  using assms
proof (cases rule: loop_body_cases)
  case (stopped_early evs)
  then show ?thesis by simp
next
  case (persist_failed evs d' e)
  from persist_frame[OF persist_failed(5)] show ?thesis by (simp add: after_step_simps)
next
  case (plot_failed evs d' st4 e)
  from persist_frame[OF plot_failed(5)] plot_keys_frame[OF plot_failed(7)] show ?thesis
    by (simp add: after_step_simps emit_def)
next
  case (completed evs d' st4 st5)
  from persist_frame[OF completed(5)] have a4: "arguments st4 = i \<and> iteration st4 = Some i"
    by (simp add: after_step_simps)
  have "arguments st5 = i \<and> iteration st5 = Some i"
  proof (cases "i mod 20 = 0 \<or> i = m - 1")
    case True
    with completed(6) have pl: "plot_keys E (map fst d') (emit [Log i] st4) = (st5, None)"
      by simp
    from plot_keys_frame[OF pl] a4 show ?thesis by (simp add: emit_def)
  next
    case False
    with completed(6) a4 show ?thesis by simp
  qed
  with completed(7) show ?thesis by (auto simp: emit_def split: if_splits)
qed

lemma loop_body_period:
  assumes "loop_body E m P i b st = (st', None)"
  shows "P \<noteq> 0"
  using assms by (cases rule: loop_body_cases) (auto split: if_splits)


lemma reduced_values_keys:
  assumes "reduced_values c io d = (evs, Inr d')" and "distinct (map fst d)"
  shows "map fst d' = map fst d"
proof (cases "get_world_size c < 2")
  case True
  with assms(1) show ?thesis by (simp add: reduced_values_def)
next
  case False
  with assms(1) obtain ys where red: "dist_reduce c io (map snd d) = Inr ys"
    and d': "d' = dict_of_pairs (zip (map fst d)
                    (if get_rank c = 0 then map (\<lambda>y. y / real (get_world_size c)) ys else ys))"
    by (auto simp: reduced_values_def Let_def split: if_splits sum.splits)
  let ?zs = "if get_rank c = 0 then map (\<lambda>y. y / real (get_world_size c)) ys else ys"
  from dist_reduce_length[OF red] have lz: "length ?zs = length d" by simp
  then have "distinct (map fst (zip (map fst d) ?zs))" using assms(2) by simp
  from dict_of_pairs_distinct[OF this] d' lz show ?thesis by simp
qed

lemma loop_body_history:
  assumes body: "loop_body E m P i b st = (st', None)"
    and dist: "distinct (map fst (model_out b))"
    and key: "key \<in> fst ` set (model_out b)"
  shows "hists st' key = hists st key @ [logged_value E key b]
         \<and> files st' (history_path key) = Pickled (hists st key @ [logged_value E key b])
         \<and> dumps key (trace st') = dumps key (trace st) @ [hists st key @ [logged_value E key b]]"
  using body
proof (cases rule: loop_body_cases)
  case (completed evs d' st4 st5)
  let ?f = "\<lambda>ev. case ev of Dump k xs \<Rightarrow> if k = key then [xs] else [] | _ \<Rightarrow> []"
  from reduced_values_keys[OF completed(2) dist] have keys: "map fst d' = map fst (model_out b)" .
  with dist key have dk: "distinct (map fst d')" and kin: "key \<in> set (map fst d')" by simp_all
  from persist_effect[OF completed(5) dk, of key] kin
  obtain v where v: "map_of d' key = Some v"
    and h4: "hists st4 key = hists (after_step i b evs d' st) key @ [v]"
    and f4: "files st4 (history_path key) = Pickled (hists (after_step i b evs d' st) key @ [v])"
    and d4: "dumps key (trace st4)
             = dumps key (trace (after_step i b evs d' st)) @ [hists (after_step i b evs d' st) key @ [v]]"
    by auto
  from v completed(2) have lv: "logged_value E key b = v" by (simp add: logged_value_def)
  from completed(1) have d3: "dumps key (trace (after_step i b evs d' st)) = dumps key (trace st)"
    by (auto simp: after_step_simps dumps_def)
  have s5: "hists st5 = hists st4 \<and> files st5 = files st4
            \<and> dumps key (trace st5) = dumps key (trace st4)"
  proof (cases "i mod 20 = 0 \<or> i = m - 1")
    case True
    with completed(6) have pl: "plot_keys E (map fst d') (emit [Log i] st4) = (st5, None)"
      by simp
    from plot_keys_proj[OF pl, of ?f] plot_keys_frame[OF pl] show ?thesis
      by (simp add: emit_def dumps_def)
  next
    case False
    with completed(6) show ?thesis by simp
  qed
  have s': "hists st' = hists st5 \<and> files st' = files st5
            \<and> dumps key (trace st') = dumps key (trace st5)"
    using completed(7) by (auto simp: emit_def dumps_def split: if_splits)
  from s' s5 h4 f4 d4 d3 lv show ?thesis by (simp add: after_step_simps)
qed simp_all

lemma upto_shift: "[i..i + int (Suc k) - 1] = i # [i + 1..i + 1 + int k - 1]"
  by (simp add: upto_rec1)

lemma train_loop_steps:
  "train_loop E m P i bs st = (st', r)
   \<Longrightarrow> \<exists>n\<le>length bs. steps (trace st') = steps (trace st) @ [i..i + int n - 1]
                       \<and> (r = None \<longrightarrow> n = length bs)"
proof (induction bs arbitrary: i st)
  case Nil
  then show ?case by simp
next
  case (Cons b bs)
  obtain st1 r1 where lb: "loop_body E m P i b st = (st1, r1)"
    by (cases "loop_body E m P i b st")
  note s1 = loop_body_steps[OF lb]
  show ?case
  proof (cases r1)
    case (Some e)
    with Cons.prems lb have "st' = st1" "r = Some e" by simp_all
    with s1 show ?thesis by (intro exI[of _ 1]) simp
  next
    case None
    with Cons.prems lb have "train_loop E m P (i + 1) bs st1 = (st', r)" by simp
    from Cons.IH[OF this] obtain n where n: "n \<le> length bs"
      and st: "steps (trace st') = steps (trace st1) @ [i + 1..i + 1 + int n - 1]"
      and ok: "r = None \<longrightarrow> n = length bs"
      by auto
    from st s1 have "steps (trace st') = steps (trace st) @ [i..i + int (Suc n) - 1]"
      by (simp only: upto_shift) simp
    with n ok show ?thesis by (intro exI[of _ "Suc n"]) simp
  qed
qed

lemma train_loop_backwards:
  "train_loop E m P i bs st = (st', r)
   \<Longrightarrow> \<exists>n\<le>length bs.
         backwards (trace st')
           = backwards (trace st) @ map (\<lambda>b. py_sum (map snd (model_out b))) (take n bs)
         \<and> (r = None \<longrightarrow> n = length bs)"
proof (induction bs arbitrary: i st)
  case Nil
  then show ?case by simp
next
  case (Cons b bs)
  obtain st1 r1 where lb: "loop_body E m P i b st = (st1, r1)"
    by (cases "loop_body E m P i b st")
  from loop_body_backwards[OF lb] obtain stepped where sp: "r1 = None \<longrightarrow> stepped"
    and b1: "backwards (trace st1)
             = backwards (trace st) @ (if stepped then [py_sum (map snd (model_out b))] else [])"
    by auto
  show ?case
  proof (cases r1)
    case (Some e)
    with Cons.prems lb have "st' = st1" "r = Some e" by simp_all
    with b1 show ?thesis
      by (intro exI[of _ "if stepped then 1 else 0"]) simp
  next
    case None
    with Cons.prems lb have "train_loop E m P (i + 1) bs st1 = (st', r)" by simp
    from Cons.IH[OF this] obtain n where n: "n \<le> length bs"
      and st: "backwards (trace st')
               = backwards (trace st1) @ map (\<lambda>b. py_sum (map snd (model_out b))) (take n bs)"
      and ok: "r = None \<longrightarrow> n = length bs"
      by auto
    from None sp have stepped by simp
    with st b1 n ok show ?thesis by (intro exI[of _ "Suc n"]) simp
  qed
qed

lemma train_loop_saves_diagonal:
  "train_loop E m P i bs st = (st', r)
   \<Longrightarrow> set (saves (trace st')) \<subseteq> set (saves (trace st)) \<union> {(j, a). a = j}"
proof (induction bs arbitrary: i st)
  case Nil
  then show ?case by simp
next
  case (Cons b bs)
  obtain st1 r1 where lb: "loop_body E m P i b st = (st1, r1)"
    by (cases "loop_body E m P i b st")
  from loop_body_saves[OF lb]
  have s1: "set (saves (trace st1)) \<subseteq> set (saves (trace st)) \<union> {(j, a). a = j}"
    by auto
  show ?case
  proof (cases r1)
    case (Some e)
    with Cons.prems lb s1 show ?thesis by simp
  next
    case None
    with Cons.prems lb have "train_loop E m P (i + 1) bs st1 = (st', r)" by simp
    from Cons.IH[OF this] s1 show ?thesis by blast
  qed
qed

lemma train_loop_cadence_prefix:
  "train_loop E m P i bs st = (st', r)
   \<Longrightarrow> \<exists>n\<le>length bs.
         saves (trace st')
           = saves (trace st)
             @ map (\<lambda>j. (j, j)) (filter (\<lambda>j. j mod P = 0 \<and> 0 < j) [i..i + int n - 1])
       \<and> vals (trace st')
           = vals (trace st) @ filter (\<lambda>j. j mod P = 0 \<and> 0 < j) [i..i + int n - 1]
       \<and> (r = None \<longrightarrow> n = length bs)"
proof (induction bs arbitrary: i st)
  case Nil
  then show ?case by simp
next
  case (Cons b bs)
  obtain st1 r1 where lb: "loop_body E m P i b st = (st1, r1)"
    by (cases "loop_body E m P i b st")
  note s1 = loop_body_saves[OF lb] loop_body_vals[OF lb]
  show ?case
  proof (cases r1)
    case (Some e)
    with Cons.prems lb have "st' = st1" "r = Some e" by simp_all
    with s1 Some show ?thesis by (intro exI[of _ 0]) simp
  next
    case None
    with Cons.prems lb have "train_loop E m P (i + 1) bs st1 = (st', r)" by simp
    from Cons.IH[OF this] obtain n where n: "n \<le> length bs"
      and sv: "saves (trace st')
               = saves (trace st1)
                 @ map (\<lambda>j. (j, j)) (filter (\<lambda>j. j mod P = 0 \<and> 0 < j) [i + 1..i + 1 + int n - 1])"
      and vl: "vals (trace st')
               = vals (trace st1) @ filter (\<lambda>j. j mod P = 0 \<and> 0 < j) [i + 1..i + 1 + int n - 1]"
      and ok: "r = None \<longrightarrow> n = length bs"
      by auto
    from sv vl s1 None
    have "saves (trace st')
           = saves (trace st)
             @ map (\<lambda>j. (j, j)) (filter (\<lambda>j. j mod P = 0 \<and> 0 < j) [i..i + int (Suc n) - 1])
       \<and> vals (trace st')
           = vals (trace st) @ filter (\<lambda>j. j mod P = 0 \<and> 0 < j) [i..i + int (Suc n) - 1]"
      by (simp only: upto_shift) simp
    with n ok show ?thesis by (intro exI[of _ "Suc n"]) simp
  qed
qed

lemma train_loop_last:
  "train_loop E m P i bs st = (st', None) \<Longrightarrow> bs \<noteq> []
   \<Longrightarrow> iteration st' = Some (i + int (length bs) - 1)
       \<and> arguments st' = i + int (length bs) - 1"
proof (induction bs arbitrary: i st)
  case Nil
  then show ?case by simp
next
  case (Cons b bs)
  obtain st1 r1 where lb: "loop_body E m P i b st = (st1, r1)"
    by (cases "loop_body E m P i b st")
  with Cons.prems have r1: "r1 = None" and rest: "train_loop E m P (i + 1) bs st1 = (st', None)"
    by (auto split: option.splits)
  show ?case
  proof (cases "bs = []")
    case True
    with rest loop_body_frame[OF lb] show ?thesis by simp
  next
    case False
    from Cons.IH[OF rest False] show ?thesis by simp
  qed
qed

lemma train_loop_period:
  "train_loop E m P i bs st = (st', None) \<Longrightarrow> bs \<noteq> [] \<Longrightarrow> P \<noteq> 0"
  by (cases bs) (auto split: prod.splits option.splits dest: loop_body_period)

lemma train_loop_history:
  assumes "train_loop E m P i bs st = (st', None)"
    and "\<forall>b\<in>set bs. distinct (map fst (model_out b)) \<and> key \<in> fst ` set (model_out b)"
  shows "hists st' key = hists st key @ map (logged_value E key) bs
         \<and> (bs \<noteq> [] \<longrightarrow> files st' (history_path key) = Pickled (hists st' key))
         \<and> dumps key (trace st')
             = dumps key (trace st)
               @ map (\<lambda>n. hists st key @ map (logged_value E key) (take (Suc n) bs))
                   [0..<length bs]"
  using assms
proof (induction bs arbitrary: i st)
  case Nil
  then show ?case by simp
next
  case (Cons b bs)
  obtain st1 r1 where lb: "loop_body E m P i b st = (st1, r1)"
    by (cases "loop_body E m P i b st")
  with Cons.prems(1) have r1: "r1 = None"
    and rest: "train_loop E m P (i + 1) bs st1 = (st', None)"
    by (auto split: option.splits)
  from Cons.prems(2) have db: "distinct (map fst (model_out b))"
    and kb: "key \<in> fst ` set (model_out b)"
    and all: "\<forall>b\<in>set bs. distinct (map fst (model_out b)) \<and> key \<in> fst ` set (model_out b)"
    by simp_all
  from loop_body_history[OF lb[unfolded r1] db kb]
  have h1: "hists st1 key = hists st key @ [logged_value E key b]"
    and f1: "files st1 (history_path key) = Pickled (hists st key @ [logged_value E key b])"
    and d1: "dumps key (trace st1)
             = dumps key (trace st) @ [hists st key @ [logged_value E key b]]"
    by simp_all
  note IH = Cons.IH[OF rest all]
  have files: "files st' (history_path key) = Pickled (hists st' key)"
  proof (cases "bs = []")
    case True
    with rest h1 f1 show ?thesis by simp
  next
    case False
    with IH show ?thesis by simp
  qed
  have idx: "[0..<length (b # bs)] = 0 # map Suc [0..<length bs]"
    by (simp add: upt_conv_Cons map_Suc_upt del: upt_Suc)
  show ?case
    using IH h1 d1 files by (simp only: idx) (simp add: comp_def)
qed

subsection \<open>Runs of do_train\<close>

lemmas ex_defs = ex_env_def ex_io_def ex_batch_def ex_files_def
lemmas run_defs = do_train_def train_from_def load_histories_def history_vars_def pickle_load_def
  init_state_def loop_body_def reduced_values_def emit_def persist_key_def resolve_def
  plot_key_def history_path_def Let_def

text \<open>A run of \<open>do_train\<close>, by the place where it ends.\<close>

lemma do_train_cases:
  assumes "do_train E dl P a fs = (st, r)"
  obtains
    (load_failed) e where "load_histories fs = Inl e"
      and "st = init_state a (\<lambda>k. []) fs" and "r = Some e"
  | (loop_failed) hs e where "load_histories fs = Inr hs"
      and "train_loop E (int (dl_len dl)) P a (dl_batches dl) (init_state a hs fs) = (st, Some e)"
      and "r = Some e"
  | (no_batches) hs where "load_histories fs = Inr hs" and "dl_batches dl = []"
      and "st = init_state a hs fs" and "r = Some (UnboundLocalError ''iteration'')"
  | (finished) hs st1 where "load_histories fs = Inr hs" and "dl_batches dl \<noteq> []"
      and "train_loop E (int (dl_len dl)) P a (dl_batches dl) (init_state a hs fs) = (st1, None)"
      and "arguments st1 = a + int (length (dl_batches dl)) - 1"
      and "if dl_len dl = 0
           then st = emit [Save (arguments st1) (arguments st1)] st1 \<and> r = Some ZeroDivisionError
           else st = emit [Report] (emit [Save (arguments st1) (arguments st1)] st1) \<and> r = None"
proof (cases "load_histories fs")
  case (Inl e)
  with assms show ?thesis by (intro load_failed[of e]) (simp_all add: do_train_def)
next
  case (Inr hs)
  let ?loop = "train_loop E (int (dl_len dl)) P a (dl_batches dl) (init_state a hs fs)"
  obtain st1 r1 where tl: "?loop = (st1, r1)" by (cases ?loop)
  from assms Inr have tf: "train_from E dl P a hs fs = (st, r)" by (simp add: do_train_def)
  show ?thesis
  proof (cases r1)
    case (Some e)
    with tf tl have "st = st1" "r = Some e" by (simp_all add: train_from_def)
    with Inr tl Some show ?thesis by (intro loop_failed[of hs e]) simp_all
  next
    case None
    show ?thesis
    proof (cases "dl_batches dl = []")
      case True
      with tl have "st1 = init_state a hs fs" by simp
      with tf tl None True have "st = init_state a hs fs" "r = Some (UnboundLocalError ''iteration'')"
        by (simp_all add: train_from_def init_state_def)
      with Inr True show ?thesis by (intro no_batches[of hs]) simp_all
    next
      case False
      from train_loop_last[OF tl[unfolded None] False]
      have it: "iteration st1 = Some (a + int (length (dl_batches dl)) - 1)"
        and ar: "arguments st1 = a + int (length (dl_batches dl)) - 1"
        by simp_all
      from tf tl None it ar
      have "if dl_len dl = 0
           then st = emit [Save (arguments st1) (arguments st1)] st1 \<and> r = Some ZeroDivisionError
           else st = emit [Report] (emit [Save (arguments st1) (arguments st1)] st1) \<and> r = None"
        by (auto simp: train_from_def Let_def)
      with Inr False tl None ar show ?thesis by (intro finished[of hs st1]) simp_all
    qed
  qed
qed

lemma init_state_simps:
  "trace (init_state a hs fs) = []" "arguments (init_state a hs fs) = a"
  "hists (init_state a hs fs) = hs" "files (init_state a hs fs) = fs"
  "iteration (init_state a hs fs) = None"
  by (simp_all add: init_state_def)

lemma do_train_saves_diagonal:
  assumes "do_train E dl P a fs = (st, r)" and "(n, x) \<in> set (saves (trace st))"
  shows "x = n"
  using assms(1)
proof (cases rule: do_train_cases)
  case (load_failed e)
  with assms(2) show ?thesis by (simp add: init_state_simps saves_def)
next
  case (loop_failed hs e)
  from train_loop_saves_diagonal[OF loop_failed(2)] assms(2) show ?thesis
    by (auto simp: init_state_simps saves_def)
next
  case (no_batches hs)
  with assms(2) show ?thesis by (simp add: init_state_simps saves_def)
next
  case (finished hs st1)
  from train_loop_saves_diagonal[OF finished(3)]
  have "set (saves (trace st1)) \<subseteq> {(j, a). a = j}"
    by (auto simp: init_state_simps saves_def)
  moreover from finished(5)
  have "saves (trace st) = saves (trace st1) @ [(arguments st1, arguments st1)]"
    by (auto simp: emit_def saves_def split: if_splits)
  ultimately show ?thesis using assms(2) by auto
qed

lemma do_train_steps:
  assumes "do_train E dl P a fs = (st, r)"
  shows "\<exists>k\<le>length (dl_batches dl).
           steps (trace st) = [a..a + int k - 1] \<and> (r = None \<longrightarrow> k = length (dl_batches dl))"
  using assms
proof (cases rule: do_train_cases)
  case (load_failed e)
  then show ?thesis by (intro exI[of _ 0]) (simp add: init_state_simps steps_def)
next
  case (loop_failed hs e)
  from train_loop_steps[OF loop_failed(2)] loop_failed(3) show ?thesis
    by (auto simp: init_state_simps steps_def)
next
  case (no_batches hs)
  then show ?thesis by (intro exI[of _ 0]) (simp add: init_state_simps steps_def)
next
  case (finished hs st1)
  from train_loop_steps[OF finished(3)]
  have "steps (trace st1) = [a..a + int (length (dl_batches dl)) - 1]"
    by (auto simp: init_state_simps steps_def)
  moreover from finished(5) have "steps (trace st) = steps (trace st1)"
    by (auto simp: emit_def steps_def split: if_splits)
  ultimately show ?thesis by (intro exI[of _ "length (dl_batches dl)"]) simp
qed

subsection \<open>Checkpoints and resumption\<close>

text \<open>
  Claim C1, as amended. Every checkpoint that a run saves at iteration \<open>n\<close> records
  \<open>n\<close> as the current iteration of the training arguments, and a run started from
  arguments restored from it numbers its passes \<open>n\<close>, \<open>n + 1\<close>, ...: the first pass after
  the restore has index \<open>n\<close> again (all of them when the run completes, a prefix when
  it fails).
\<close>

theorem checkpoint_resume:
  assumes "do_train E dl P start fs = (st, r)" and "(n, a) \<in> set (saves (trace st))"
    and "do_train E' dl' P' a fs' = (st', r')"
  shows "a = n
         \<and> (\<exists>k\<le>length (dl_batches dl').
               steps (trace st') = [n..n + int k - 1]
               \<and> (r' = None \<longrightarrow> k = length (dl_batches dl')))"
  using do_train_saves_diagonal[OF assms(1,2)] do_train_steps[OF assms(3)] by simp

theorem checkpoint_resume_witness:
  "(1, 1) \<in> set (saves (trace (fst (do_train ex_env
        \<lparr>dl_len = 3, dl_batches = [ex_batch, ex_batch, ex_batch]\<rparr> 1 0 ex_files))))
   \<and> steps (trace (fst (do_train ex_env
        \<lparr>dl_len = 3, dl_batches = [ex_batch, ex_batch]\<rparr> 1 1 ex_files))) = [1, 2]
   \<and> snd (do_train ex_env \<lparr>dl_len = 3, dl_batches = [ex_batch, ex_batch]\<rparr> 1 1 ex_files) = None"
proof -
  let ?first = "do_train ex_env \<lparr>dl_len = 3, dl_batches = [ex_batch, ex_batch, ex_batch]\<rparr> 1 0 ex_files"
  let ?second = "do_train ex_env \<lparr>dl_len = 3, dl_batches = [ex_batch, ex_batch]\<rparr> 1 1 ex_files"
  have saved: "(1, 1) \<in> set (saves (trace (fst ?first)))"
    by (simp add: ex_defs run_defs saves_def)
  have ok: "snd ?second = None"
    by (simp add: ex_defs run_defs)
  have run1: "?first = (fst ?first, snd ?first)" by simp
  have run2: "?second = (fst ?second, None)" using ok by (metis prod.collapse)
  from checkpoint_resume[OF run1 saved run2]
  have "steps (trace (fst ?second)) = [1..1 + int 2 - 1]" by auto
  then have "steps (trace (fst ?second)) = [1, 2]" by (simp add: upto_rec1)
  with saved ok show ?thesis by simp
qed

text \<open>
  Claim C1 as stated fails: a run with checkpoint period 1 saves a checkpoint at
  iteration 1 that records iteration 1, and the run restarted from it begins with
  index 1, not 2.
\<close>

theorem checkpoint_resume_counterexample:
  "(1, 1) \<in> set (saves (trace (fst (do_train ex_env
        \<lparr>dl_len = 3, dl_batches = [ex_batch, ex_batch, ex_batch]\<rparr> 1 0 ex_files))))
   \<and> hd (steps (trace (fst (do_train ex_env
        \<lparr>dl_len = 3, dl_batches = [ex_batch, ex_batch]\<rparr> 1 1 ex_files)))) = 1
   \<and> hd (steps (trace (fst (do_train ex_env
        \<lparr>dl_len = 3, dl_batches = [ex_batch, ex_batch]\<rparr> 1 1 ex_files)))) \<noteq> 1 + 1"
  by (simp add: ex_defs run_defs saves_def steps_def)

subsection \<open>Loading the loss histories\<close>

lemma load_all_first_failure:
  "\<forall>k'\<in>set pre. \<exists>xs. fs (history_path k') = Pickled xs
   \<Longrightarrow> pickle_load fs (history_path k) = Inl e
   \<Longrightarrow> load_all fs (pre @ k # post) = Inl e"
  by (induction pre) (auto simp: pickle_load_def)

text \<open>
  Claim C2, as amended. Let \<open>k\<close> be the first of the four history files that does not
  hold a pickled list. If reading it hits end-of-file, all four histories start empty
  and training goes on from there. If the file is absent, or its content is damaged in
  another way, \<open>do_train\<close> fails with that exception before the first pass.
\<close>

theorem history_load:
  assumes "history_vars = pre @ k # post"
    and "\<forall>k'\<in>set pre. \<exists>xs. fs (history_path k') = Pickled xs"
  shows "(fs (history_path k) = RanOut \<longrightarrow>
            load_histories fs = Inr (\<lambda>k. [])
            \<and> do_train E dl P a fs = train_from E dl P a (\<lambda>k. []) fs)
       \<and> (fs (history_path k) = Missing \<longrightarrow>
            do_train E dl P a fs
            = (init_state a (\<lambda>k. []) fs, Some (FileNotFoundError (history_path k))))
       \<and> (fs (history_path k) = Garbled \<longrightarrow>
            do_train E dl P a fs
            = (init_state a (\<lambda>k. []) fs, Some (UnpicklingError (history_path k))))"
proof -
  have fail: "load_all fs history_vars = Inl e" if "pickle_load fs (history_path k) = Inl e" for e
    using load_all_first_failure[OF assms(2) that, of post] assms(1) by simp
  have "fs (history_path k) = RanOut \<Longrightarrow> load_histories fs = Inr (\<lambda>k. [])"
    using fail[of EOFError] by (simp add: load_histories_def pickle_load_def)
  moreover have "fs (history_path k) = Missing
                 \<Longrightarrow> load_histories fs = Inl (FileNotFoundError (history_path k))"
    using fail[of "FileNotFoundError (history_path k)"]
    by (simp add: load_histories_def pickle_load_def)
  moreover have "fs (history_path k) = Garbled
                 \<Longrightarrow> load_histories fs = Inl (UnpicklingError (history_path k))"
    using fail[of "UnpicklingError (history_path k)"]
    by (simp add: load_histories_def pickle_load_def)
  ultimately show ?thesis by (simp add: do_train_def)
qed

theorem history_load_witness:
  "load_histories (ex_files(''./outputs/loss_classifier.p'' := Pickled [1])) = Inr (\<lambda>k. [])
   \<and> do_train ex_env \<lparr>dl_len = 1, dl_batches = [ex_batch]\<rparr> 1 0
        ((\<lambda>path. Missing)(''./outputs/loss_classifier.p'' := Pickled [1]))
     = (init_state 0 (\<lambda>k. []) ((\<lambda>path. Missing)(''./outputs/loss_classifier.p'' := Pickled [1])),
        Some (FileNotFoundError ''./outputs/loss_box_reg.p''))"
proof -
  let ?fs1 = "ex_files(''./outputs/loss_classifier.p'' := Pickled [1])"
  let ?fs2 = "(\<lambda>path. Missing)(''./outputs/loss_classifier.p'' := Pickled [1])"
  have split: "history_vars = [''loss_classifier''] @ ''loss_box_reg'' # [''loss_objectness'', ''loss_rpn_box_reg'']"
    by (simp add: history_vars_def)
  have path: "history_path ''loss_box_reg'' = ''./outputs/loss_box_reg.p''"
    by (simp add: history_path_def)
  have p1: "\<forall>k'\<in>set [''loss_classifier'']. \<exists>xs. ?fs1 (history_path k') = Pickled xs"
    by (simp add: history_path_def)
  have p2: "\<forall>k'\<in>set [''loss_classifier'']. \<exists>xs. ?fs2 (history_path k') = Pickled xs"
    by (simp add: history_path_def)
  have r1: "?fs1 (history_path ''loss_box_reg'') = RanOut"
    by (simp add: history_path_def ex_files_def)
  have r2: "?fs2 (history_path ''loss_box_reg'') = Missing"
    by (simp add: history_path_def)
  from history_load[OF split p1, of ex_env "\<lparr>dl_len = 1, dl_batches = [ex_batch]\<rparr>" 1 0] r1
  have a: "load_histories ?fs1 = Inr (\<lambda>k. [])" by blast
  from history_load[OF split p2, of ex_env "\<lparr>dl_len = 1, dl_batches = [ex_batch]\<rparr>" 1 0] r2
  have b: "do_train ex_env \<lparr>dl_len = 1, dl_batches = [ex_batch]\<rparr> 1 0 ?fs2
           = (init_state 0 (\<lambda>k. []) ?fs2, Some (FileNotFoundError (history_path ''loss_box_reg'')))"
    by blast
  from a b show ?thesis unfolding path by (rule conjI)
qed

text \<open>
  Claim C2 as stated fails: with no history file on disk, \<open>do_train\<close> fails on opening
  the first one.
\<close>

theorem history_load_counterexample:
  "do_train ex_env \<lparr>dl_len = 1, dl_batches = [ex_batch]\<rparr> 1 0 (\<lambda>path. Missing)
   = (init_state 0 (\<lambda>k. []) (\<lambda>path. Missing),
      Some (FileNotFoundError ''./outputs/loss_classifier.p''))"
  by (simp add: do_train_def load_histories_def history_vars_def pickle_load_def history_path_def)

subsection \<open>The checkpoint cadence\<close>

text \<open>
  Claim C4. Take a run from iteration 0 on a loader that yields \<^verbatim>\<open>len(data_loader)\<close>
  batches, and let \<open>n\<close> be the number of passes it completes (all \<open>max_iter\<close> of them
  when the run succeeds). A checkpoint is saved and a validation pass made exactly at
  the iterations below \<open>n\<close> that are positive multiples of the checkpoint period, in
  order. The one other checkpoint is the final one at \<open>max_iter - 1\<close>, saved when the
  run succeeds; no validation follows it.
\<close>

theorem checkpoint_cadence:
  assumes "do_train E dl P 0 fs = (st, r)" and "length (dl_batches dl) = dl_len dl"
  shows "\<exists>n\<le>dl_len dl.
           vals (trace st) = filter (\<lambda>i. P dvd i \<and> 0 < i) [0..int n - 1]
         \<and> map fst (saves (trace st))
             = filter (\<lambda>i. P dvd i \<and> 0 < i) [0..int n - 1]
               @ (if r = None then [int (dl_len dl) - 1] else [])
         \<and> (r = None \<longrightarrow> n = dl_len dl)"
proof -
  have dvd: "(\<lambda>j::int. j mod P = 0 \<and> 0 < j) = (\<lambda>j. P dvd j \<and> 0 < j)"
    by (auto simp: mod_eq_0_iff_dvd)
  from assms(1) show ?thesis
  proof (cases rule: do_train_cases)
    case (load_failed e)
    then show ?thesis by (intro exI[of _ 0]) (simp add: init_state_simps saves_def vals_def)
  next
    case (loop_failed hs e)
    from train_loop_cadence_prefix[OF loop_failed(2)] obtain n
      where "n \<le> length (dl_batches dl)"
        and "saves (trace st)
             = map (\<lambda>j. (j, j)) (filter (\<lambda>j. P dvd j \<and> 0 < j) [0..int n - 1])"
        and "vals (trace st) = filter (\<lambda>j. P dvd j \<and> 0 < j) [0..int n - 1]"
      by (auto simp: init_state_simps saves_def vals_def dvd)
    with loop_failed(3) assms(2) show ?thesis
      by (intro exI[of _ n]) (simp add: comp_def)
  next
    case (no_batches hs)
    then show ?thesis by (intro exI[of _ 0]) (simp add: init_state_simps saves_def vals_def)
  next
    case (finished hs st1)
    from finished(2) assms(2) have nz: "dl_len dl \<noteq> 0" by (metis length_0_conv)
    with finished(5) have r: "r = None"
      and st: "st = emit [Report] (emit [Save (arguments st1) (arguments st1)] st1)"
      by simp_all
    from train_loop_cadence_prefix[OF finished(3)] assms(2)
    have "saves (trace st1)
            = map (\<lambda>j. (j, j)) (filter (\<lambda>j. P dvd j \<and> 0 < j) [0..int (dl_len dl) - 1])"
      and "vals (trace st1) = filter (\<lambda>j. P dvd j \<and> 0 < j) [0..int (dl_len dl) - 1]"
      by (simp_all add: init_state_simps saves_def vals_def dvd)
    with st r finished(4) assms(2) show ?thesis
      by (intro exI[of _ "dl_len dl"]) (simp add: emit_def saves_def vals_def comp_def)
  qed
qed

theorem checkpoint_cadence_witness:
  "snd (do_train ex_env \<lparr>dl_len = 5, dl_batches = [ex_batch, ex_batch, ex_batch, ex_batch, ex_batch]\<rparr>
          2 0 ex_files) = None
   \<and> map fst (saves (trace (fst (do_train ex_env
        \<lparr>dl_len = 5, dl_batches = [ex_batch, ex_batch, ex_batch, ex_batch, ex_batch]\<rparr>
          2 0 ex_files)))) = [2, 4, 4]
   \<and> vals (trace (fst (do_train ex_env
        \<lparr>dl_len = 5, dl_batches = [ex_batch, ex_batch, ex_batch, ex_batch, ex_batch]\<rparr>
          2 0 ex_files))) = [2, 4]"
proof -
  let ?run = "do_train ex_env
        \<lparr>dl_len = 5, dl_batches = [ex_batch, ex_batch, ex_batch, ex_batch, ex_batch]\<rparr> 2 0 ex_files"
  have ok: "snd ?run = None" by (simp add: ex_defs run_defs)
  then have run: "?run = (fst ?run, None)" by (metis prod.collapse)
  have "[0..int 5 - 1] = [0, 1, 2, 3, 4]" by (simp add: upto_rec1)
  with checkpoint_cadence[OF run] ok show ?thesis by auto
qed

subsection \<open>The gradient step\<close>

text \<open>
  Claim C5. In every pass that reaches the gradient step, the value on which
  \<^verbatim>\<open>backward\<close> is called (and which the optimizer step follows) is the sum of the
  entries of the Loss Mapping the model returned on this worker; neither the other
  workers' losses nor the reduced mapping enter it. The values handed to \<^verbatim>\<open>backward\<close>
  in a run are these sums for the batches in order: all of them when the run completes,
  a prefix when it fails.
\<close>

theorem backward_unreduced:
  assumes "do_train E dl P a fs = (st, r)"
  shows "\<exists>n\<le>length (dl_batches dl).
           backwards (trace st)
             = map (\<lambda>b. py_sum (map snd (model_out b))) (take n (dl_batches dl))
           \<and> (r = None \<longrightarrow> n = length (dl_batches dl))"
  using assms
proof (cases rule: do_train_cases)
  case (load_failed e)
  then show ?thesis by (intro exI[of _ 0]) (simp add: init_state_simps backwards_def)
next
  case (loop_failed hs e)
  from train_loop_backwards[OF loop_failed(2)] loop_failed(3) show ?thesis
    by (auto simp: init_state_simps backwards_def)
next
  case (no_batches hs)
  then show ?thesis by (intro exI[of _ 0]) (simp add: init_state_simps backwards_def)
next
  case (finished hs st1)
  from train_loop_backwards[OF finished(3)]
  have "backwards (trace st1) = map (\<lambda>b. py_sum (map snd (model_out b))) (dl_batches dl)"
    by (auto simp: init_state_simps backwards_def)
  moreover from finished(5) have "backwards (trace st) = backwards (trace st1)"
    by (auto simp: emit_def backwards_def split: if_splits)
  ultimately show ?thesis by (intro exI[of _ "length (dl_batches dl)"]) simp
qed

theorem backward_unreduced_witness:
  "snd (do_train (ex_env\<lparr>get_world_size := 2\<rparr>)
          \<lparr>dl_len = 2,
           dl_batches = [ex_batch\<lparr>reduce_env := \<lparr>peers = [[3, 5]], leftover = (\<lambda>i. 0)\<rparr>\<rparr>,
                         ex_batch\<lparr>reduce_env := \<lparr>peers = [[5, 8]], leftover = (\<lambda>i. 0)\<rparr>\<rparr>]\<rparr>
          1 0 ex_files) = None
   \<and> backwards (trace (fst (do_train (ex_env\<lparr>get_world_size := 2\<rparr>)
          \<lparr>dl_len = 2,
           dl_batches = [ex_batch\<lparr>reduce_env := \<lparr>peers = [[3, 5]], leftover = (\<lambda>i. 0)\<rparr>\<rparr>,
                         ex_batch\<lparr>reduce_env := \<lparr>peers = [[5, 8]], leftover = (\<lambda>i. 0)\<rparr>\<rparr>]\<rparr>
          1 0 ex_files))) = [3, 3]
   \<and> dumps ''loss_classifier'' (trace (fst (do_train (ex_env\<lparr>get_world_size := 2\<rparr>)
          \<lparr>dl_len = 2,
           dl_batches = [ex_batch\<lparr>reduce_env := \<lparr>peers = [[3, 5]], leftover = (\<lambda>i. 0)\<rparr>\<rparr>,
                         ex_batch\<lparr>reduce_env := \<lparr>peers = [[5, 8]], leftover = (\<lambda>i. 0)\<rparr>\<rparr>]\<rparr>
          1 0 ex_files))) = [[2], [2, 3]]"
proof -
  let ?run = "do_train (ex_env\<lparr>get_world_size := 2\<rparr>)
          \<lparr>dl_len = 2,
           dl_batches = [ex_batch\<lparr>reduce_env := \<lparr>peers = [[3, 5]], leftover = (\<lambda>i. 0)\<rparr>\<rparr>,
                         ex_batch\<lparr>reduce_env := \<lparr>peers = [[5, 8]], leftover = (\<lambda>i. 0)\<rparr>\<rparr>]\<rparr>
          1 0 ex_files"
  have ok: "snd ?run = None"
    by (simp add: ex_defs run_defs dist_reduce_def reduce_sum_def dict_of_pairs_def)
  have dumped: "dumps ''loss_classifier'' (trace (fst ?run)) = [[2], [2, 3]]"
    by (simp add: ex_defs run_defs dist_reduce_def reduce_sum_def dict_of_pairs_def dumps_def)
  have run: "?run = (fst ?run, None)" using ok by (metis prod.collapse)
  from backward_unreduced[OF run]
  have "backwards (trace (fst ?run)) = [3, 3]" by (auto simp: ex_batch_def py_sum_def)
  with ok dumped show ?thesis by simp
qed

subsection \<open>The persisted loss history\<close>

lemma load_all_pickled:
  "\<forall>k\<in>set ks. \<exists>xs. fs (history_path k) = Pickled xs
   \<Longrightarrow> \<exists>r. load_all fs ks = Inr r \<and> map fst r = ks
           \<and> (\<forall>k\<in>set ks. \<exists>xs. map_of r k = Some xs \<and> fs (history_path k) = Pickled xs)"
proof (induction ks)
  case Nil
  then show ?case by simp
next
  case (Cons k ks)
  from Cons.prems obtain xs where xs: "fs (history_path k) = Pickled xs" by auto
  from Cons.IH Cons.prems obtain r where r: "load_all fs ks = Inr r" "map fst r = ks"
    and rest: "\<forall>k\<in>set ks. \<exists>xs. map_of r k = Some xs \<and> fs (history_path k) = Pickled xs"
    by auto
  from xs r have "load_all fs (k # ks) = Inr ((k, xs) # r)"
    by (simp add: pickle_load_def)
  with xs r rest show ?case by auto
qed

lemma load_histories_pickled:
  assumes "\<forall>k\<in>set history_vars. \<exists>xs. fs (history_path k) = Pickled xs"
    and "key \<in> set history_vars"
  shows "\<exists>hs. load_histories fs = Inr hs \<and> fs (history_path key) = Pickled (hs key)"
proof -
  from load_all_pickled[OF assms(1)] obtain r where r: "load_all fs history_vars = Inr r"
    and all: "\<forall>k\<in>set history_vars. \<exists>xs. map_of r k = Some xs \<and> fs (history_path k) = Pickled xs"
    by auto
  from all assms(2) obtain xs where "map_of r key = Some xs" "fs (history_path key) = Pickled xs"
    by auto
  with r show ?thesis by (simp add: load_histories_def)
qed

lemma loop_body_keys_known:
  assumes "loop_body E m P i b st = (st', None)" and "distinct (map fst (model_out b))"
  shows "fst ` set (model_out b) \<subseteq> set history_vars"
  using assms(1)
proof (cases rule: loop_body_cases)
  case (completed evs d' st4 st5)
  from reduced_values_keys[OF completed(2) assms(2)] persist_keys_known[OF completed(5)]
  show ?thesis by simp
qed simp_all

text \<open>
  Claim C8. For a key that every pass of a completed run finds in its Loss Mapping, and
  whose history was empty at loop start, the list is appended to and the key's file
  rewritten in every pass (the dumps are the growing prefixes, one per pass, whatever
  the logging cadence); after the \<open>K\<close> passes the list has \<open>K\<close> entries, the reduced
  values in the order of the passes, and loading the file gives that list back. The
  loads at the next start of \<open>do_train\<close> give it back as well when all four history
  files hold a list by then.
\<close>

theorem loss_history_persisted:
  assumes "do_train E dl P a fs = (st, None)"
    and "load_histories fs = Inr hs" and "hs key = []"
    and "\<forall>b\<in>set (dl_batches dl). distinct (map fst (model_out b)) \<and> key \<in> fst ` set (model_out b)"
  shows "hists st key = map (logged_value E key) (dl_batches dl)
         \<and> length (hists st key) = length (dl_batches dl)
         \<and> pickle_load (files st) (history_path key) = Inr (hists st key)
         \<and> dumps key (trace st)
             = map (\<lambda>n. map (logged_value E key) (take (Suc n) (dl_batches dl)))
                 [0..<length (dl_batches dl)]
         \<and> ((\<forall>k\<in>set history_vars. \<exists>xs. files st (history_path k) = Pickled xs) \<longrightarrow>
              (\<exists>hs'. load_histories (files st) = Inr hs' \<and> hs' key = hists st key))"
  using assms(1)
proof (cases rule: do_train_cases)
  case (finished hs' st1)
  from finished(1) assms(2) have hs': "hs' = hs" by simp
  from finished(5) have st: "st = emit [Report] (emit [Save (arguments st1) (arguments st1)] st1)"
    by (auto split: if_splits)
  from train_loop_history[OF finished(3) assms(4)] finished(2) assms(3) hs'
  have h: "hists st1 key = map (logged_value E key) (dl_batches dl)"
    and f: "files st1 (history_path key) = Pickled (hists st1 key)"
    and d: "dumps key (trace st1)
            = map (\<lambda>n. map (logged_value E key) (take (Suc n) (dl_batches dl)))
                [0..<length (dl_batches dl)]"
    by (simp_all add: init_state_simps dumps_def)
  obtain b bs where bs: "dl_batches dl = b # bs" using finished(2) by (cases "dl_batches dl") auto
  obtain st0 r0 where lb: "loop_body E (int (dl_len dl)) P a b (init_state a hs' fs) = (st0, r0)"
    by (cases "loop_body E (int (dl_len dl)) P a b (init_state a hs' fs)")
  with finished(3) bs have "r0 = None" by (auto split: option.splits)
  with lb loop_body_keys_known[of E "int (dl_len dl)" P a b "init_state a hs' fs" st0] assms(4) bs
  have known: "key \<in> set history_vars" by auto
  have reload: "\<exists>hs'. load_histories (files st) = Inr hs' \<and> hs' key = hists st key"
    if "\<forall>k\<in>set history_vars. \<exists>xs. files st (history_path k) = Pickled xs"
    using load_histories_pickled[OF that known] st f by (auto simp: emit_def)
  from st h f d reload show ?thesis
    by (simp add: emit_def dumps_def pickle_load_def)
qed simp_all

theorem loss_history_persisted_witness:
  "snd (do_train ex_env \<lparr>dl_len = 3, dl_batches = [ex_full 1, ex_full 5, ex_full 9]\<rparr> 2 0 ex_files)
     = None
   \<and> pickle_load (files (fst (do_train ex_env
         \<lparr>dl_len = 3, dl_batches = [ex_full 1, ex_full 5, ex_full 9]\<rparr> 2 0 ex_files)))
       ''./outputs/loss_box_reg.p'' = Inr [2, 6, 10]
   \<and> dumps ''loss_box_reg'' (trace (fst (do_train ex_env
         \<lparr>dl_len = 3, dl_batches = [ex_full 1, ex_full 5, ex_full 9]\<rparr> 2 0 ex_files)))
       = [[2], [2, 6], [2, 6, 10]]
   \<and> logs (trace (fst (do_train ex_env
         \<lparr>dl_len = 3, dl_batches = [ex_full 1, ex_full 5, ex_full 9]\<rparr> 2 0 ex_files))) = [0, 2]
   \<and> (\<exists>hs'. load_histories (files (fst (do_train ex_env
         \<lparr>dl_len = 3, dl_batches = [ex_full 1, ex_full 5, ex_full 9]\<rparr> 2 0 ex_files))) = Inr hs'
         \<and> hs' ''loss_box_reg'' = [2, 6, 10])"
proof -
  let ?dl = "\<lparr>dl_len = 3, dl_batches = [ex_full 1, ex_full 5, ex_full 9]\<rparr>"
  let ?run = "do_train ex_env ?dl 2 0 ex_files"
  have ok: "snd ?run = None" by (simp add: ex_defs ex_full_def run_defs)
  then have run: "?run = (fst ?run, None)" by (metis prod.collapse)
  have logged: "logs (trace (fst ?run)) = [0, 2]"
    by (simp add: ex_defs ex_full_def run_defs logs_def)
  have written: "\<forall>k\<in>set history_vars. \<exists>xs. files (fst ?run) (history_path k) = Pickled xs"
    by (simp add: ex_defs ex_full_def run_defs)
  have load: "load_histories ex_files = Inr (\<lambda>k. [])"
    by (simp add: load_histories_def history_vars_def pickle_load_def ex_files_def)
  have keys: "\<forall>b\<in>set (dl_batches ?dl).
                distinct (map fst (model_out b)) \<and> ''loss_box_reg'' \<in> fst ` set (model_out b)"
    by (simp add: ex_full_def)
  have v: "logged_value ex_env ''loss_box_reg'' (ex_full x) = x + 1" for x
    by (simp add: logged_value_def reduced_values_def ex_defs ex_full_def)
  have idx: "[0..<3] = [0, 1, 2]" by (simp add: upt_rec)
  note inst = loss_history_persisted[OF run load refl keys]
  from inst v
  have h: "hists (fst ?run) ''loss_box_reg'' = [2, 6, 10]"
    and p: "pickle_load (files (fst ?run)) (history_path ''loss_box_reg'') = Inr [2, 6, 10]"
    and d: "dumps ''loss_box_reg'' (trace (fst ?run)) = [[2], [2, 6], [2, 6, 10]]"
    by (simp_all add: idx)
  from inst written
  have "\<exists>hs'. load_histories (files (fst ?run)) = Inr hs'
               \<and> hs' ''loss_box_reg'' = hists (fst ?run) ''loss_box_reg''"
    by blast
  then have l: "\<exists>hs'. load_histories (files (fst ?run)) = Inr hs'
               \<and> hs' ''loss_box_reg'' = [2, 6, 10]"
    unfolding h .
  from p have p': "pickle_load (files (fst ?run)) ''./outputs/loss_box_reg.p'' = Inr [2, 6, 10]"
    by (simp add: history_path_def)
  from ok p' d logged l show ?thesis by blast
qed

text \<open>
  When the model returns only some of the four losses, the files of the others stay
  empty, and the next start of \<open>do_train\<close> finds end-of-file on one of them: all four
  lists, those just written too, start empty again.
\<close>

lemma history_reset_example:
  "files (fst (do_train ex_env \<lparr>dl_len = 3, dl_batches = [ex_batch, ex_batch, ex_batch]\<rparr>
                 2 0 ex_files)) ''./outputs/loss_classifier.p'' = Pickled [1, 1, 1]
   \<and> load_histories (files (fst (do_train ex_env
         \<lparr>dl_len = 3, dl_batches = [ex_batch, ex_batch, ex_batch]\<rparr> 2 0 ex_files)))
       = Inr (\<lambda>k. [])"
  by (simp add: ex_defs run_defs)

subsection \<open>A data loader of length zero\<close>

text \<open>
  Claim C9, as amended. If the data loader yields no batch, \<open>do_train\<close> fails (once the
  histories are loaded) at the final checkpoint save, on the loop variable
  \<^verbatim>\<open>iteration\<close> that was never bound; the timing report and its division are not
  reached. The division by \<open>max_iter\<close> fails only when \<^verbatim>\<open>len(data_loader)\<close> is 0 while the
  loader still yields batches and the loop completes them: then the final checkpoint
  is saved and the report raises the division by zero.
\<close>

theorem max_iter_zero:
  assumes "load_histories fs = Inr hs"
  shows "(dl_batches dl = [] \<longrightarrow>
            do_train E dl P a fs = (init_state a hs fs, Some (UnboundLocalError ''iteration'')))
       \<and> (dl_len dl = 0 \<and> dl_batches dl \<noteq> []
            \<and> train_loop E 0 P a (dl_batches dl) (init_state a hs fs) = (st1, None) \<longrightarrow>
            do_train E dl P a fs
            = (emit [Save (a + int (length (dl_batches dl)) - 1)
                          (a + int (length (dl_batches dl)) - 1)] st1,
               Some ZeroDivisionError))"
proof (intro conjI impI)
  assume "dl_batches dl = []"
  with assms show "do_train E dl P a fs = (init_state a hs fs, Some (UnboundLocalError ''iteration''))"
    by (simp add: do_train_def train_from_def init_state_def)
next
  assume h: "dl_len dl = 0 \<and> dl_batches dl \<noteq> []
             \<and> train_loop E 0 P a (dl_batches dl) (init_state a hs fs) = (st1, None)"
  from train_loop_last[of E 0 P a "dl_batches dl" "init_state a hs fs" st1] h
  have "iteration st1 = Some (a + int (length (dl_batches dl)) - 1)"
    and "arguments st1 = a + int (length (dl_batches dl)) - 1"
    by simp_all
  with assms h show "do_train E dl P a fs
            = (emit [Save (a + int (length (dl_batches dl)) - 1)
                          (a + int (length (dl_batches dl)) - 1)] st1,
               Some ZeroDivisionError)"
    by (simp add: do_train_def train_from_def Let_def)
qed

theorem max_iter_zero_witness:
  "do_train ex_env \<lparr>dl_len = 0, dl_batches = []\<rparr> 1 0 ex_files
     = (init_state 0 (\<lambda>k. []) ex_files, Some (UnboundLocalError ''iteration''))
   \<and> snd (do_train ex_env \<lparr>dl_len = 0, dl_batches = [ex_batch]\<rparr> 1 0 ex_files)
       = Some ZeroDivisionError
   \<and> saves (trace (fst (do_train ex_env \<lparr>dl_len = 0, dl_batches = [ex_batch]\<rparr> 1 0 ex_files)))
       = [(0, 0)]"
proof -
  have load: "load_histories ex_files = Inr (\<lambda>k. [])"
    by (simp add: load_histories_def history_vars_def pickle_load_def ex_files_def)
  let ?loop = "train_loop ex_env 0 1 0 [ex_batch] (init_state 0 (\<lambda>k. []) ex_files)"
  have ok: "snd ?loop = None"
    by (simp add: ex_defs run_defs)
  then have loop: "?loop = (fst ?loop, None)" by (metis prod.collapse)
  have sv: "saves (trace (fst ?loop)) = []"
    by (simp add: ex_defs run_defs saves_def)
  from max_iter_zero[OF load, of "\<lparr>dl_len = 0, dl_batches = []\<rparr>" ex_env 1 0]
  have a: "do_train ex_env \<lparr>dl_len = 0, dl_batches = []\<rparr> 1 0 ex_files
           = (init_state 0 (\<lambda>k. []) ex_files, Some (UnboundLocalError ''iteration''))"
    by simp
  from max_iter_zero[OF load, of "\<lparr>dl_len = 0, dl_batches = [ex_batch]\<rparr>" ex_env 1 0 "fst ?loop"] loop
  have b: "do_train ex_env \<lparr>dl_len = 0, dl_batches = [ex_batch]\<rparr> 1 0 ex_files
           = (emit [Save 0 0] (fst ?loop), Some ZeroDivisionError)"
    by simp
  from a b sv show ?thesis by (simp add: emit_def saves_def)
qed

text \<open>
  Claim C9 as stated fails: on an empty data loader the run ends with the unbound
  local, not with a division by zero, and nothing has been saved or reported.
\<close>

theorem max_iter_zero_counterexample:
  "snd (do_train ex_env \<lparr>dl_len = 0, dl_batches = []\<rparr> 1 0 ex_files)
     = Some (UnboundLocalError ''iteration'')
   \<and> snd (do_train ex_env \<lparr>dl_len = 0, dl_batches = []\<rparr> 1 0 ex_files) \<noteq> Some ZeroDivisionError
   \<and> trace (fst (do_train ex_env \<lparr>dl_len = 0, dl_batches = []\<rparr> 1 0 ex_files)) = []"
  by (simp add: ex_defs run_defs)

subsection \<open>Keys outside the four history variables\<close>

lemma persist_append:
  "persist E d (xs @ ys) st
   = (case persist E d xs st of
        (st1, Some e) \<Rightarrow> (st1, Some e)
      | (st1, None) \<Rightarrow> persist E d ys st1)"
  by (induction xs arbitrary: st) (auto split: prod.splits option.splits)

lemma persist_key_known:
  assumes "k \<in> set history_vars" and "k \<in> fst ` set d"
  shows "\<exists>st1. persist_key E d st k = (st1, None) \<and> fig_bound st1 = fig_bound st"
proof -
  from assms(2) obtain v where "map_of d k = Some v"
    by (cases "map_of d k") (auto simp: map_of_eq_None_iff)
  with assms(1) show ?thesis by (simp add: persist_key_def resolve_def Let_def)
qed

lemma persist_known:
  "set ks \<subseteq> set history_vars \<Longrightarrow> set ks \<subseteq> fst ` set d
   \<Longrightarrow> \<exists>st1. persist E d ks st = (st1, None) \<and> fig_bound st1 = fig_bound st"
proof (induction ks arbitrary: st)
  case Nil
  then show ?case by simp
next
  case (Cons k ks)
  from Cons.prems persist_key_known[of k d E st]
  obtain st1 where k: "persist_key E d st k = (st1, None)" and f: "fig_bound st1 = fig_bound st"
    by auto
  from Cons.IH[of st1] Cons.prems
  obtain st2 where "persist E d ks st1 = (st2, None)" and "fig_bound st2 = fig_bound st1"
    by auto
  with k f show ?case by simp
qed

lemma persist_key_unbound:
  "unbound E k \<Longrightarrow> persist_key E d st k = (st, Some (NameError k))"
  by (simp add: persist_key_def resolve_def unbound_def)

lemma loop_body_persist_failure:
  assumes "reduced_values E (reduce_env b) (model_out b) = (evs, Inr d)"
    and "model_out b \<noteq> []" and "''loss'' \<notin> set (map fst d)"
    and "persist E d (map fst d) (after_step i b evs d st) = (st', Some e)"
  shows "loop_body E m P i b st = (st', Some e)"
  using assms by (simp add: loop_body_def after_step_def Let_def)

text \<open>
  Claim C10, as amended. Take a pass that reaches the persistence step (the reduction
  returned a mapping, which has no key \<^verbatim>\<open>loss\<close>, and the model's mapping is not empty).
  If the first key of the reduced mapping that is not one of the four history variables
  is an identifier that is bound nowhere in the scope of \<^verbatim>\<open>do_train\<close>, the step fails
  with a NameError on that key, and the loop is left with it: no later batch is run.
\<close>

theorem unknown_key_name_error:
  assumes "reduced_values E (reduce_env b) (model_out b) = (evs, Inr d)"
    and "model_out b \<noteq> []" and "''loss'' \<notin> set (map fst d)"
    and "map fst d = pre @ k # post" and "set pre \<subseteq> set history_vars"
    and "unbound E k"
  shows "snd (loop_body E m P i b st) = Some (NameError k)
         \<and> snd (train_loop E m P i (b # bs) st) = Some (NameError k)"
proof -
  have "set pre \<subseteq> fst ` set d"
  proof -
    have "set (map fst d) = set (pre @ k # post)" using assms(4) by simp
    then show ?thesis by auto
  qed
  from persist_known[OF assms(5) this, of E "after_step i b evs d st"]
  obtain st1 where p1: "persist E d pre (after_step i b evs d st) = (st1, None)" by auto
  have "persist E d (pre @ k # post) (after_step i b evs d st) = (st1, Some (NameError k))"
    using p1 persist_key_unbound[OF assms(6), of d st1] by (simp add: persist_append)
  with assms(4) have "persist E d (map fst d) (after_step i b evs d st) = (st1, Some (NameError k))"
    by simp
  from loop_body_persist_failure[OF assms(1-3) this]
  have "loop_body E m P i b st = (st1, Some (NameError k))" .
  then show ?thesis by simp
qed

theorem unknown_key_name_error_witness:
  "unbound ex_env ''loss_mask''
   \<and> snd (loop_body ex_env 3 1 0
            \<lparr>model_out = [(''loss_classifier'', 1), (''loss_mask'', 2)], reduce_env = ex_io\<rparr>
            (init_state 0 (\<lambda>k. []) ex_files)) = Some (NameError ''loss_mask'')
   \<and> snd (train_loop ex_env 3 1 0
            [\<lparr>model_out = [(''loss_classifier'', 1), (''loss_mask'', 2)], reduce_env = ex_io\<rparr>,
             ex_batch, ex_batch]
            (init_state 0 (\<lambda>k. []) ex_files)) = Some (NameError ''loss_mask'')"
proof -
  let ?b = "\<lparr>model_out = [(''loss_classifier'', 1), (''loss_mask'', 2)], reduce_env = ex_io\<rparr>"
  have u: "unbound ex_env ''loss_mask''"
    by (simp add: unbound_def ex_env_def history_vars_def frame_floats_def frame_others_def
          module_names_def py_identifier_def ident_start_def ident_digit_def)
  have rv: "reduced_values ex_env (reduce_env ?b) (model_out ?b)
            = ([], Inr [(''loss_classifier'', 1), (''loss_mask'', 2)])"
    by (simp add: reduced_values_def ex_env_def)
  have keys: "map fst [(''loss_classifier'', 1::real), (''loss_mask'', 2)]
              = [''loss_classifier''] @ ''loss_mask'' # []"
    by simp
  from unknown_key_name_error[OF rv _ _ keys _ u, of 3 1 0 "init_state 0 (\<lambda>k. []) ex_files"
         "[ex_batch, ex_batch]"] u
  show ?thesis by (simp add: history_vars_def)
qed

text \<open>
  Claim C10 as stated fails. The key \<^verbatim>\<open>end\<close> is outside the fixed set, but \<^verbatim>\<open>end\<close> is a
  local of \<^verbatim>\<open>do_train\<close> (a float), so the built statement finds the name and fails on
  its missing \<^verbatim>\<open>append\<close> attribute instead. With the key \<^verbatim>\<open>loss\<close> the pass does not
  reach the persistence step: \<^verbatim>\<open>meters.update\<close> is given the keyword \<^verbatim>\<open>loss\<close> twice.
\<close>

theorem unknown_key_name_error_counterexample:
  "''end'' \<notin> set history_vars
   \<and> do_train ex_env \<lparr>dl_len = 1, dl_batches = [\<lparr>model_out = [(''end'', 1)], reduce_env = ex_io\<rparr>]\<rparr>
        1 0 ex_files
     = (\<lparr>arguments = 0, iteration = Some 0, hists = (\<lambda>k. []), fig_bound = False,
         files = ex_files,
         trace = [SchedulerStep 0, MetersUpdate 0 1 [(''end'', 1)], Backward 0 1, OptimizerStep 0]\<rparr>,
        Some (AttributeError ''end''))
   \<and> ''loss'' \<notin> set history_vars
   \<and> do_train ex_env \<lparr>dl_len = 1, dl_batches = [\<lparr>model_out = [(''loss'', 1)], reduce_env = ex_io\<rparr>]\<rparr>
        1 0 ex_files
     = (\<lparr>arguments = 0, iteration = Some 0, hists = (\<lambda>k. []), fig_bound = False,
         files = ex_files, trace = [SchedulerStep 0]\<rparr>,
        Some (TypeError ''loss''))"
  by (simp add: ex_defs run_defs frame_floats_def py_identifier_def ident_start_def
        ident_digit_def py_sum_def)

end
